theory Spec2Isabelle
  imports Main "HOL-Library.Sublist"
begin

section \<open>Values of the raw records\<close>

text \<open>
  The collector works on what \<^verbatim>\<open>resp.json()\<close> returns: \<^verbatim>\<open>None\<close>, booleans, integers,
  strings, lists and dictionaries with string keys. A dictionary is an association list
  read with \<open>map_of\<close> (a Python dictionary holds each key once; where a list repeats a
  key, the first entry is the one that is read). Floating-point numbers are not part of this
  model. A string is a list of characters, one \<open>char\<close> for one character of the Python
  string (the model has the 256 characters of \<open>char\<close>), so \<open>length\<close> counts what
  Python's \<^verbatim>\<open>len\<close> counts.
\<close>

datatype json =
    JNull
  | JBool bool
  | JInt int
  | JStr string
  | JList "json list"
  | JObj "(string \<times> json) list"

type_synonym pydict = "(string \<times> json) list"

text \<open>\<^verbatim>\<open>d.get(key)\<close>: the value, or \<^verbatim>\<open>None\<close> when the key is absent.\<close>

definition dict_get :: "pydict \<Rightarrow> string \<Rightarrow> json" where
  "dict_get d key = (case map_of d key of None \<Rightarrow> JNull | Some v \<Rightarrow> v)"

section \<open>The field extractor\<close>

text \<open>\<^verbatim>\<open>path.split(".")\<close>: the segments between the separators; never the empty list.\<close>

fun split_sep :: "char \<Rightarrow> string \<Rightarrow> string list" where
  "split_sep sep [] = [[]]"
| "split_sep sep (c # cs) =
     (if c = sep then [] # split_sep sep cs
      else (case split_sep sep cs of
              [] \<Rightarrow> [[c]]
            | w # ws \<Rightarrow> (c # w) # ws))"

text \<open>
  \<^verbatim>\<open>
  def _get_nested(d, path, default=None):
      cur = d
      for part in path.split("."):
          if not isinstance(cur, dict) or part not in cur:
              return default
          cur = cur[part]
      return cur
  \<close>
  The loop over the segments, with \<open>cur\<close> as its state.
\<close>

fun get_nested_loop :: "json \<Rightarrow> string list \<Rightarrow> json \<Rightarrow> json" where
  "get_nested_loop cur [] dflt = cur"
| "get_nested_loop cur (part # parts) dflt =
     (case cur of
        JObj kvs \<Rightarrow>
          (case map_of kvs part of
             None \<Rightarrow> dflt
           | Some v \<Rightarrow> get_nested_loop v parts dflt)
      | _ \<Rightarrow> dflt)"

definition get_nested :: "json \<Rightarrow> string \<Rightarrow> json \<Rightarrow> json" where
  "get_nested d path dflt = get_nested_loop d (split_sep (CHR ''.'') path) dflt"

text \<open>
  What it means for a path to lead somewhere, stated without the loop: \<open>walks d parts v\<close>
  holds when following \<open>parts\<close> through nested mappings from \<open>d\<close> ends at \<open>v\<close>.
\<close>

inductive walks :: "json \<Rightarrow> string list \<Rightarrow> json \<Rightarrow> bool" where
  walks_end: "walks v [] v"
| walks_step: "map_of kvs part = Some w \<Longrightarrow> walks w parts v \<Longrightarrow> walks (JObj kvs) (part # parts) v"

code_pred walks .

inductive_cases walks_NilE: "walks d [] v"
inductive_cases walks_ConsE: "walks d (part # parts) v"


section \<open>The record normalizer\<close>

text \<open>The column names of a partition file, in the order \<^verbatim>\<open>write_rows\<close> lists them.\<close>

definition fieldnames :: "string list" where
  "fieldnames =
    [''snapshot_ts'', ''pairAddress'', ''chainId'', ''dexId'',
     ''url'', ''baseToken_symbol'', ''baseToken_address'', ''quoteToken_symbol'',
     ''quoteToken_address'', ''priceNative'', ''priceUsd'', ''priceChange_h1'',
     ''priceChange_h6'', ''priceChange_h24'', ''txns_m5_buys'', ''txns_m5_sells'',
     ''txns_h1_buys'', ''txns_h1_sells'', ''txns_h6_buys'', ''txns_h6_sells'',
     ''txns_h24_buys'', ''txns_h24_sells'', ''volume_m5'', ''volume_h1'',
     ''volume_h6'', ''volume_h24'', ''liquidity_base'', ''liquidity_quote'',
     ''liquidity_usd'', ''pairCreatedAt'']"

text \<open>
  The dictionary literal that \<^verbatim>\<open>normalize_records\<close> builds for one raw record \<open>p\<close>
  (the local \<^verbatim>\<open>rec\<close>): top-level fields with \<^verbatim>\<open>p.get\<close>, nested ones with
  \<^verbatim>\<open>_get_nested\<close> and its default \<^verbatim>\<open>None\<close>.
\<close>

definition normalize_record :: "pydict \<Rightarrow> string \<Rightarrow> pydict" where
  "normalize_record p snapshot_ts =
    [(''snapshot_ts'', JStr snapshot_ts),
     (''pairAddress'', dict_get p ''pairAddress''),
     (''chainId'', dict_get p ''chainId''),
     (''dexId'', dict_get p ''dexId''),
     (''url'', dict_get p ''url''),
     (''baseToken_symbol'', get_nested (JObj p) ''baseToken.symbol'' JNull),
     (''baseToken_address'', get_nested (JObj p) ''baseToken.address'' JNull),
     (''quoteToken_symbol'', get_nested (JObj p) ''quoteToken.symbol'' JNull),
     (''quoteToken_address'', get_nested (JObj p) ''quoteToken.address'' JNull),
     (''priceNative'', dict_get p ''priceNative''),
     (''priceUsd'', dict_get p ''priceUsd''),
     (''priceChange_h1'', get_nested (JObj p) ''priceChange.h1'' JNull),
     (''priceChange_h6'', get_nested (JObj p) ''priceChange.h6'' JNull),
     (''priceChange_h24'', get_nested (JObj p) ''priceChange.h24'' JNull),
     (''txns_m5_buys'', get_nested (JObj p) ''txns.m5.buys'' JNull),
     (''txns_m5_sells'', get_nested (JObj p) ''txns.m5.sells'' JNull),
     (''txns_h1_buys'', get_nested (JObj p) ''txns.h1.buys'' JNull),
     (''txns_h1_sells'', get_nested (JObj p) ''txns.h1.sells'' JNull),
     (''txns_h6_buys'', get_nested (JObj p) ''txns.h6.buys'' JNull),
     (''txns_h6_sells'', get_nested (JObj p) ''txns.h6.sells'' JNull),
     (''txns_h24_buys'', get_nested (JObj p) ''txns.h24.buys'' JNull),
     (''txns_h24_sells'', get_nested (JObj p) ''txns.h24.sells'' JNull),
     (''volume_m5'', get_nested (JObj p) ''volume.m5'' JNull),
     (''volume_h1'', get_nested (JObj p) ''volume.h1'' JNull),
     (''volume_h6'', get_nested (JObj p) ''volume.h6'' JNull),
     (''volume_h24'', get_nested (JObj p) ''volume.h24'' JNull),
     (''liquidity_base'', get_nested (JObj p) ''liquidity.base'' JNull),
     (''liquidity_quote'', get_nested (JObj p) ''liquidity.quote'' JNull),
     (''liquidity_usd'', get_nested (JObj p) ''liquidity.usd'' JNull),
     (''pairCreatedAt'', dict_get p ''pairCreatedAt'')]"

text \<open>
  \<^verbatim>\<open>
  out = []
  for p in pairs:
      rec = {...}
      out.append(rec)
  return out
  \<close>
\<close>

fun normalize_loop :: "pydict list \<Rightarrow> pydict list \<Rightarrow> string \<Rightarrow> pydict list" where
  "normalize_loop out [] snapshot_ts = out"
| "normalize_loop out (p # pairs) snapshot_ts =
     normalize_loop (out @ [normalize_record p snapshot_ts]) pairs snapshot_ts"

definition normalize_records :: "pydict list \<Rightarrow> string \<Rightarrow> pydict list" where
  "normalize_records pairs snapshot_ts = normalize_loop [] pairs snapshot_ts"

text \<open>
  For the statement of what a row holds: each column other than \<open>snapshot_ts\<close> with
  the dot-separated path of the raw record it is read from.
\<close>

definition field_sources :: "(string \<times> string) list" where
  "field_sources =
    [(''pairAddress'', ''pairAddress''),
     (''chainId'', ''chainId''),
     (''dexId'', ''dexId''),
     (''url'', ''url''),
     (''baseToken_symbol'', ''baseToken.symbol''),
     (''baseToken_address'', ''baseToken.address''),
     (''quoteToken_symbol'', ''quoteToken.symbol''),
     (''quoteToken_address'', ''quoteToken.address''),
     (''priceNative'', ''priceNative''),
     (''priceUsd'', ''priceUsd''),
     (''priceChange_h1'', ''priceChange.h1''),
     (''priceChange_h6'', ''priceChange.h6''),
     (''priceChange_h24'', ''priceChange.h24''),
     (''txns_m5_buys'', ''txns.m5.buys''),
     (''txns_m5_sells'', ''txns.m5.sells''),
     (''txns_h1_buys'', ''txns.h1.buys''),
     (''txns_h1_sells'', ''txns.h1.sells''),
     (''txns_h6_buys'', ''txns.h6.buys''),
     (''txns_h6_sells'', ''txns.h6.sells''),
     (''txns_h24_buys'', ''txns.h24.buys''),
     (''txns_h24_sells'', ''txns.h24.sells''),
     (''volume_m5'', ''volume.m5''),
     (''volume_h1'', ''volume.h1''),
     (''volume_h6'', ''volume.h6''),
     (''volume_h24'', ''volume.h24''),
     (''liquidity_base'', ''liquidity.base''),
     (''liquidity_quote'', ''liquidity.quote''),
     (''liquidity_usd'', ''liquidity.usd''),
     (''pairCreatedAt'', ''pairCreatedAt'')]"

section \<open>CSV text\<close>

abbreviation CR :: char where "CR \<equiv> CHR 0x0D"
abbreviation LF :: char where "LF \<equiv> CHR 0x0A"
abbreviation DQ :: char where "DQ \<equiv> CHR 0x22"
abbreviation COMMA :: char where "COMMA \<equiv> CHR 0x2C"

subsection \<open>Writing\<close>

text \<open>
  \<^verbatim>\<open>csv.DictWriter(f, fieldnames=fieldnames)\<close> writes in the \<^verbatim>\<open>excel\<close> dialect:
  delimiter comma, quote character \<^verbatim>\<open>"\<close>, \<^verbatim>\<open>doublequote\<close>, \<^verbatim>\<open>QUOTE_MINIMAL\<close>,
  line terminator CR LF. A field is quoted when it holds the delimiter, the quote
  character or a character of the line terminator; a quote inside is doubled. A record
  of one empty field is written as two quotes.
\<close>

definition is_special :: "char \<Rightarrow> bool" where
  "is_special c = (c = COMMA \<or> c = DQ \<or> c = CR \<or> c = LF)"

fun double_quotes :: "string \<Rightarrow> string" where
  "double_quotes [] = []"
| "double_quotes (c # cs) =
     (if c = DQ then DQ # DQ # double_quotes cs else c # double_quotes cs)"

definition csv_field :: "string \<Rightarrow> string" where
  "csv_field s = (if list_ex is_special s then DQ # double_quotes s @ [DQ] else s)"

fun csv_join :: "string list \<Rightarrow> string" where
  "csv_join [] = []"
| "csv_join [f] = csv_field f"
| "csv_join (f # g # fs) = csv_field f @ COMMA # csv_join (g # fs)"

definition csv_line :: "string list \<Rightarrow> string" where
  "csv_line cells =
     (let line = csv_join cells
      in if cells \<noteq> [] \<and> line = [] then [DQ, DQ] else line)"

definition csv_writerow :: "string list \<Rightarrow> string" where
  "csv_writerow cells = csv_line cells @ [CR, LF]"

text \<open>
  What the writer makes of one value: \<^verbatim>\<open>None\<close> is the empty field, a string is
  written as it is, anything else through \<^verbatim>\<open>str()\<close>. For a list or a dictionary
  \<^verbatim>\<open>str()\<close> is Python's \<^verbatim>\<open>repr\<close>, which this model does not compute: it is the
  parameter \<open>py_str\<close>.
\<close>

definition digit_char :: "nat \<Rightarrow> char" where
  "digit_char n = ''0123456789'' ! n"

fun str_nat :: "nat \<Rightarrow> string" where
  "str_nat n = (if n < 10 then [digit_char n] else str_nat (n div 10) @ [digit_char (n mod 10)])"

definition str_int :: "int \<Rightarrow> string" where
  "str_int i = (if i < 0 then CHR ''-'' # str_nat (nat (- i)) else str_nat (nat i))"

fun cell_text :: "(json \<Rightarrow> string) \<Rightarrow> json \<Rightarrow> string" where
  "cell_text py_str JNull = []"
| "cell_text py_str (JStr s) = s"
| "cell_text py_str (JBool b) = (if b then ''True'' else ''False'')"
| "cell_text py_str (JInt i) = str_int i"
| "cell_text py_str v = py_str v"

text \<open>
  \<^verbatim>\<open>DictWriter._dict_to_list\<close>: a row with a key that is no column raises
  \<^verbatim>\<open>ValueError\<close>; a column the row lacks is written as \<^verbatim>\<open>restval\<close>, the empty string.
\<close>

definition wrong_fields :: "pydict \<Rightarrow> bool" where
  "wrong_fields rowdict = list_ex (\<lambda>k. k \<notin> set fieldnames) (map fst rowdict)"

definition dict_to_list :: "pydict \<Rightarrow> json list" where
  "dict_to_list rowdict =
     map (\<lambda>key. case map_of rowdict key of None \<Rightarrow> JStr [] | Some v \<Rightarrow> v) fieldnames"

definition row_cells :: "(json \<Rightarrow> string) \<Rightarrow> pydict \<Rightarrow> string list" where
  "row_cells py_str rowdict = map (cell_text py_str) (dict_to_list rowdict)"

definition row_line :: "(json \<Rightarrow> string) \<Rightarrow> pydict \<Rightarrow> string" where
  "row_line py_str rowdict = csv_writerow (row_cells py_str rowdict)"

datatype error =
  TypeError | ValueError | CsvError | FileNotFoundError | FileExistsError | NotADirectoryError

text \<open>
  \<^verbatim>\<open>writer.writerows(deduped)\<close> writes row after row; the rows before one that raises
  are already in the file when the exception leaves the \<^verbatim>\<open>with\<close> block. The result is
  the text written and the exception, if any.
\<close>

fun writerows :: "(json \<Rightarrow> string) \<Rightarrow> pydict list \<Rightarrow> string \<times> error option" where
  "writerows py_str [] = ([], None)"
| "writerows py_str (r # rs) =
     (if wrong_fields r then ([], Some ValueError)
      else (case writerows py_str rs of (text, e) \<Rightarrow> (row_line py_str r @ text, e)))"

subsection \<open>Reading\<close>

text \<open>
  \<^verbatim>\<open>csv.reader\<close> over a file opened with \<^verbatim>\<open>newline=""\<close>, in the same dialect. The
  library runs a state machine over the characters of each physical line and ends a
  record at the end of a line unless a quoted field is open. The model runs the same
  states over the whole text: a record is handed out at the line end that closes it, and
  \<open>EAT_CRNL\<close> is the state after a CR, in which one LF still belongs to that line end.
  The states and \<open>reader_run\<close> give the records of a text; the limit on the length of
  a field, at which the library raises, is added to them in \<open>reader_rows\<close> below.
\<close>

datatype rstate =
  START_RECORD | START_FIELD | IN_FIELD | IN_QUOTED_FIELD | QUOTE_IN_QUOTED_FIELD | EAT_CRNL

type_synonym parser = "rstate \<times> string list \<times> string"

text \<open>The state \<open>START_FIELD\<close>, which \<open>START_RECORD\<close> falls through to.\<close>

definition start_field_char :: "string list \<Rightarrow> string \<Rightarrow> char \<Rightarrow> string list option \<times> parser" where
  "start_field_char fields field c =
     (if c = LF then (Some (fields @ [field]), (START_RECORD, [], []))
      else if c = CR then (Some (fields @ [field]), (EAT_CRNL, [], []))
      else if c = DQ then (None, (IN_QUOTED_FIELD, fields, field))
      else if c = COMMA then (None, (START_FIELD, fields @ [field], []))
      else (None, (IN_FIELD, fields, field @ [c])))"

definition start_record_char :: "string list \<Rightarrow> string \<Rightarrow> char \<Rightarrow> string list option \<times> parser" where
  "start_record_char fields field c =
     (if c = LF then (Some [], (START_RECORD, [], []))
      else if c = CR then (Some [], (EAT_CRNL, [], []))
      else start_field_char fields field c)"

fun parse_process_char :: "parser \<Rightarrow> char \<Rightarrow> string list option \<times> parser" where
  "parse_process_char (START_RECORD, fields, field) c = start_record_char fields field c"
| "parse_process_char (START_FIELD, fields, field) c = start_field_char fields field c"
| "parse_process_char (IN_FIELD, fields, field) c =
     (if c = LF then (Some (fields @ [field]), (START_RECORD, [], []))
      else if c = CR then (Some (fields @ [field]), (EAT_CRNL, [], []))
      else if c = COMMA then (None, (START_FIELD, fields @ [field], []))
      else (None, (IN_FIELD, fields, field @ [c])))"
| "parse_process_char (IN_QUOTED_FIELD, fields, field) c =
     (if c = DQ then (None, (QUOTE_IN_QUOTED_FIELD, fields, field))
      else (None, (IN_QUOTED_FIELD, fields, field @ [c])))"
| "parse_process_char (QUOTE_IN_QUOTED_FIELD, fields, field) c =
     (if c = DQ then (None, (IN_QUOTED_FIELD, fields, field @ [c]))
      else if c = COMMA then (None, (START_FIELD, fields @ [field], []))
      else if c = LF then (Some (fields @ [field]), (START_RECORD, [], []))
      else if c = CR then (Some (fields @ [field]), (EAT_CRNL, [], []))
      else (None, (IN_FIELD, fields, field @ [c])))"
| "parse_process_char (EAT_CRNL, fields, field) c =
     (if c = LF then (None, (START_RECORD, [], []))
      else start_record_char fields field c)"

text \<open>
  At the end of the text a record that has begun is handed out as it stands (the
  reader is not strict), so a last line without a line end is a record like the others.
\<close>

fun reader_run :: "parser \<Rightarrow> string \<Rightarrow> string list list" where
  "reader_run (st, fields, field) [] =
     (if st = START_RECORD \<or> st = EAT_CRNL then [] else [fields @ [field]])"
| "reader_run p (c # cs) =
     (case parse_process_char p c of
        (None, p') \<Rightarrow> reader_run p' cs
      | (Some record, p') \<Rightarrow> record # reader_run p' cs)"

text \<open>For the proofs: the state of the reader when it has read the written form of a field.\<close>

definition after_field :: "string \<Rightarrow> rstate" where
  "after_field s =
     (if list_ex is_special s then QUOTE_IN_QUOTED_FIELD
      else if s = [] then START_FIELD else IN_FIELD)"

definition csv_reader :: "string \<Rightarrow> string list list" where
  "csv_reader text = reader_run (START_RECORD, [], []) text"

text \<open>
  The reader as the library runs it: \<^verbatim>\<open>parse_add_char\<close> raises \<^verbatim>\<open>_csv.Error\<close>
  (field larger than field limit) when it is to add a character to a field that already
  has \<^verbatim>\<open>csv.field_size_limit()\<close> characters, 131072 unless it is changed, which the
  collector does not do. A step adds at most one character to the field, so the step
  raises exactly when the field it leaves is longer than the limit. Iterating over the
  reader then stops with the exception: the result is the error or all the records.
\<close>

definition field_limit :: nat where
  "field_limit = 131072"

fun reader_rows :: "parser \<Rightarrow> string \<Rightarrow> error + string list list" where
  "reader_rows (st, fields, field) [] =
     Inr (if st = START_RECORD \<or> st = EAT_CRNL then [] else [fields @ [field]])"
| "reader_rows p (c # cs) =
     (case parse_process_char p c of
        (out, (st, fields, field)) \<Rightarrow>
          if field_limit < length field then Inl CsvError
          else (case reader_rows (st, fields, field) cs of
                  Inl e \<Rightarrow> Inl e
                | Inr records \<Rightarrow>
                    Inr (case out of None \<Rightarrow> records | Some record \<Rightarrow> record # records)))"

definition read_records :: "string \<Rightarrow> error + string list list" where
  "read_records text = reader_rows (START_RECORD, [], []) text"

text \<open>
  \<^verbatim>\<open>csv.DictReader(f)\<close>: the first record holds the column names; every later record
  that is not empty becomes a dictionary. \<^verbatim>\<open>dict(zip(fieldnames, row))\<close> lets a later
  column of the same name win, and a column the record is too short for holds
  \<^verbatim>\<open>None\<close>. Cells beyond the columns go under the key \<^verbatim>\<open>None\<close>, which no lookup by a
  column name reads.
\<close>

type_synonym csvdict = "(string \<times> string option) list"

definition dict_row :: "string list \<Rightarrow> string list \<Rightarrow> csvdict" where
  "dict_row names row =
     rev (zip names (map Some row @ replicate (length names - length row) None))"

definition row_get :: "csvdict \<Rightarrow> string \<Rightarrow> json" where
  "row_get d key =
     (case map_of d key of
        None \<Rightarrow> JNull
      | Some None \<Rightarrow> JNull
      | Some (Some s) \<Rightarrow> JStr s)"

definition DictReader :: "string \<Rightarrow> error + csvdict list" where
  "DictReader text =
     (case read_records text of
        Inl e \<Rightarrow> Inl e
      | Inr [] \<Rightarrow> Inr []
      | Inr (names # rows) \<Rightarrow> Inr (map (dict_row names) (filter (\<lambda>row. row \<noteq> []) rows)))"

section \<open>The table store\<close>

text \<open>
  The file system. A path to a file is kept as the pair that
  \<^verbatim>\<open>os.path.join(outdir, name)\<close> joins, \<open>name\<close> being a file name without a
  separator: its parent directory is the one \<open>outdir\<close> names, and the current
  directory when \<open>outdir\<close> is the empty string. The state holds the directory names
  that name an existing directory, the text of every regular file, and the directory
  names at which something that is not a directory is in the way: a regular file of that
  very name (\<open>IsFile\<close>), or of the name of one of its ancestors (\<open>ThroughFile\<close>).
  There are no permissions and no storage limits.
\<close>

type_synonym path = "string \<times> string"

datatype obstacle = IsFile | ThroughFile

record fs =
  dirs :: "string set"
  files :: "path \<Rightarrow> string option"
  obstacles :: "string \<Rightarrow> obstacle option"

text \<open>\<^verbatim>\<open>os.path.isdir(path)\<close>; the empty string names no directory.\<close>

definition isdir :: "fs \<Rightarrow> string \<Rightarrow> bool" where
  "isdir s d = (d \<noteq> [] \<and> d \<in> dirs s)"

definition isfile :: "fs \<Rightarrow> path \<Rightarrow> bool" where
  "isfile s p = (files s p \<noteq> None)"

text \<open>
  \<^verbatim>\<open>os.makedirs(path, exist_ok=True)\<close>, called where \<open>path\<close> is no directory: it raises
  \<^verbatim>\<open>FileNotFoundError\<close> for the empty string, \<^verbatim>\<open>FileExistsError\<close> when \<open>path\<close> is a
  regular file, \<^verbatim>\<open>NotADirectoryError\<close> when an ancestor is one, and in these cases
  creates nothing; otherwise the directory exists afterwards.
\<close>

definition makedirs :: "fs \<Rightarrow> string \<Rightarrow> error + fs" where
  "makedirs s d =
     (if d = [] then Inl FileNotFoundError
      else (case obstacles s d of
              Some IsFile \<Rightarrow> Inl FileExistsError
            | Some ThroughFile \<Rightarrow> Inl NotADirectoryError
            | None \<Rightarrow> Inr (s\<lparr>dirs := insert d (dirs s)\<rparr>)))"

text \<open>
  \<^verbatim>\<open>
  def ensure_dir(path):
      if not os.path.isdir(path):
          os.makedirs(path, exist_ok=True)
  \<close>
\<close>

definition ensure_dir :: "fs \<Rightarrow> string \<Rightarrow> error + fs" where
  "ensure_dir s d = (if \<not> isdir s d then makedirs s d else Inr s)"

text \<open>
  \<^verbatim>\<open>open(csv_path, "a")\<close> needs the parent directory: the exception it raises when
  the parent is not there, if any. The current directory is always there.
\<close>

definition open_append_error :: "fs \<Rightarrow> path \<Rightarrow> error option" where
  "open_append_error s csv_path =
     (if fst csv_path = [] \<or> isdir s (fst csv_path) then None
      else if obstacles s (fst csv_path) \<noteq> None then Some NotADirectoryError
      else Some FileNotFoundError)"

definition daily_csv_path :: "string \<Rightarrow> string \<Rightarrow> path" where
  "daily_csv_path outdir date_utc = (outdir, ''dexscreener_solana_'' @ date_utc @ ''.csv'')"

text \<open>
  Keys are tuples in a Python set. A tuple holding a list or a dictionary cannot be
  hashed: the membership test raises \<^verbatim>\<open>TypeError\<close>. \<^verbatim>\<open>True\<close> and \<^verbatim>\<open>1\<close>
  (\<^verbatim>\<open>False\<close> and \<^verbatim>\<open>0\<close>) are equal and hash alike, nothing else of different
  constructors is; \<open>py_key\<close> picks one representative, and the set holds representatives.
\<close>

fun hashable :: "json \<Rightarrow> bool" where
  "hashable (JList xs) = False"
| "hashable (JObj kvs) = False"
| "hashable v = True"

fun py_key :: "json \<Rightarrow> json" where
  "py_key (JBool b) = JInt (if b then 1 else 0)"
| "py_key v = v"

type_synonym dedup_key = "json \<times> json"

definition row_key :: "pydict \<Rightarrow> dedup_key" where
  "row_key r = (dict_get r ''pairAddress'', dict_get r ''snapshot_ts'')"

definition set_key :: "dedup_key \<Rightarrow> dedup_key" where
  "set_key k = (py_key (fst k), py_key (snd k))"

text \<open>
  \<^verbatim>\<open>
  def read_existing_keys(csv_path):
      keys = set()
      if not os.path.isfile(csv_path):
          return keys
      with open(csv_path, "r", newline="", encoding="utf-8") as f:
          reader = csv.DictReader(f)
          for row in reader:
              keys.add((row.get("pairAddress"), row.get("snapshot_ts")))
      return keys
  \<close>
\<close>

definition keys_of_dicts :: "csvdict list \<Rightarrow> dedup_key set" where
  "keys_of_dicts ds = set (map (\<lambda>row. (row_get row ''pairAddress'', row_get row ''snapshot_ts'')) ds)"

definition read_existing_keys :: "fs \<Rightarrow> path \<Rightarrow> error + dedup_key set" where
  "read_existing_keys s csv_path =
     (case files s csv_path of
        None \<Rightarrow> Inr {}
      | Some text \<Rightarrow>
          (case DictReader text of
             Inl e \<Rightarrow> Inl e
           | Inr ds \<Rightarrow> Inr (keys_of_dicts ds)))"

text \<open>
  The script \<^verbatim>\<open>scripts/collect_dex_data.py\<close> has the same function under the name
  \<^verbatim>\<open>read_existing_rows_indexed\<close>: it first reads the header line with \<^verbatim>\<open>next(f)\<close>
  and returns the empty set when there is none (an empty file), runs over the other lines
  without using them, and then reads the keys with \<^verbatim>\<open>csv.DictReader\<close> as above.
\<close>

definition read_existing_rows_indexed :: "fs \<Rightarrow> path \<Rightarrow> error + dedup_key set" where
  "read_existing_rows_indexed s csv_path =
     (case files s csv_path of
        None \<Rightarrow> Inr {}
      | Some text \<Rightarrow>
          if text = [] then Inr {}
          else (case DictReader text of
                  Inl e \<Rightarrow> Inl e
                | Inr ds \<Rightarrow> Inr (keys_of_dicts ds)))"

text \<open>
  \<^verbatim>\<open>
  deduped = []
  for r in rows:
      key = (r.get("pairAddress"), r.get("snapshot_ts"))
      if key not in existing:
          deduped.append(r)
          existing.add(key)
  \<close>
\<close>

fun dedup_loop :: "dedup_key set \<Rightarrow> pydict list \<Rightarrow> pydict list \<Rightarrow> error + pydict list" where
  "dedup_loop existing deduped [] = Inr deduped"
| "dedup_loop existing deduped (r # rows) =
     (let key = row_key r
      in if \<not> (hashable (fst key) \<and> hashable (snd key)) then Inl TypeError
         else if set_key key \<notin> existing
         then dedup_loop (insert (set_key key) existing) (deduped @ [r]) rows
         else dedup_loop existing deduped rows)"

text \<open>
  \<^verbatim>\<open>
  def write_rows(csv_path, rows):
      if not rows:
          return 0
      fieldnames = [...]
      file_exists = os.path.isfile(csv_path)
      existing = read_existing_keys(csv_path)
      deduped = []
      for r in rows: ...
      if not deduped:
          return 0
      with open(csv_path, "a", newline="", encoding="utf-8") as f:
          writer = csv.DictWriter(f, fieldnames=fieldnames)
          if not file_exists:
              writer.writeheader()
          writer.writerows(deduped)
      return len(deduped)
  \<close>
  The exceptions: \<^verbatim>\<open>_csv.Error\<close> from \<^verbatim>\<open>read_existing_keys\<close> and
  \<^verbatim>\<open>TypeError\<close> from the loop, before anything is opened for writing;
  \<^verbatim>\<open>FileNotFoundError\<close> or \<^verbatim>\<open>NotADirectoryError\<close> from \<^verbatim>\<open>open(csv_path, "a")\<close>
  when the parent directory does not exist; \<^verbatim>\<open>ValueError\<close> from the writer, after
  the header and the rows before the offending one have been written.
\<close>

definition write_rows :: "(json \<Rightarrow> string) \<Rightarrow> fs \<Rightarrow> path \<Rightarrow> pydict list \<Rightarrow> fs \<times> (error + nat)" where
  "write_rows py_str s csv_path rows =
     (if rows = [] then (s, Inr 0)
      else
        let file_exists = isfile s csv_path
        in case read_existing_keys s csv_path of
             Inl e \<Rightarrow> (s, Inl e)
           | Inr existing \<Rightarrow>
               (case dedup_loop existing [] rows of
                  Inl e \<Rightarrow> (s, Inl e)
                | Inr deduped \<Rightarrow>
                    if deduped = [] then (s, Inr 0)
                    else
                      (case open_append_error s csv_path of
                         Some e \<Rightarrow> (s, Inl e)
                       | None \<Rightarrow>
                           let old = (case files s csv_path of None \<Rightarrow> [] | Some text \<Rightarrow> text);
                               header = (if \<not> file_exists then csv_writerow fieldnames else []);
                               written = writerows py_str deduped
                           in (s\<lparr>files := (files s)(csv_path \<mapsto> old @ header @ fst written)\<rparr>,
                               case snd written of
                                 Some e \<Rightarrow> Inl e
                               | None \<Rightarrow> Inr (length deduped)))))"

section \<open>The snapshot orchestrator\<close>

text \<open>
  The outcome of the \<^verbatim>\<open>try\<close> block of \<^verbatim>\<open>do_snapshot\<close>: the list of pairs, or the
  exception by the handler that catches it (\<^verbatim>\<open>requests.HTTPError\<close> with the status
  code of its response, any other \<^verbatim>\<open>requests.RequestException\<close>, any other
  \<^verbatim>\<open>Exception\<close>). The only \<^verbatim>\<open>HTTPError\<close> of the fetch is the one
  \<^verbatim>\<open>resp.raise_for_status()\<close> raises, which carries its response.
\<close>

datatype fetch_error = HTTPError int | RequestException | OtherException

datatype message =
    ERROR_HTTP int
  | ERROR_Request_failed
  | ERROR_Unexpected
  | OK_wrote string nat path nat

text \<open>
  \<^verbatim>\<open>sum(1 for _ in f)\<close> on a file opened in text mode: the number of lines, each ended
  by LF, CR or CR LF, the last one possibly by the end of the text.
\<close>

fun count_lines :: "string \<Rightarrow> nat" where
  "count_lines [] = 0"
| "count_lines [c] = 1"
| "count_lines (c # d # cs) =
     (if c = CR \<and> d = LF then Suc (count_lines cs)
      else if c = CR \<or> c = LF then Suc (count_lines (d # cs))
      else count_lines (d # cs))"

definition total_rows :: "fs \<Rightarrow> path \<Rightarrow> nat" where
  "total_rows s csv_path =
     (case files s csv_path of
        None \<Rightarrow> 0
      | Some text \<Rightarrow> count_lines text - 1)"

text \<open>
  \<^verbatim>\<open>
  def do_snapshot(outdir, queries, chain_id, pair_ids_csv):
      now_utc = datetime.now(timezone.utc)
      snapshot_ts = now_utc.isoformat(timespec="seconds")
      try:
          pairs = fetch_pairs_by_ids(...) if pair_ids_csv else fetch_pairs_by_search_queries(queries)
      except requests.HTTPError as e: print(...); return 0
      except requests.RequestException as e: print(...); return 0
      except Exception as e: print(...); return 0
      rows = normalize_records(pairs, snapshot_ts)
      ensure_dir(outdir)
      csv_path = _daily_csv_path(outdir, now_utc)
      ...
      added = write_rows(csv_path, rows)
      ...
      print(f"[OK] {snapshot_ts} UTC - wrote {added} rows to {csv_path} (total {after})")
      return added
  \<close>
  The clock reading (\<open>snapshot_ts\<close> and the date of the same moment, as
  \<^verbatim>\<open>strftime('%Y-%m-%d')\<close> writes it) and the outcome of the fetch are arguments. The
  result is the file system, the lines printed and the value returned or the exception
  raised; an exception of \<^verbatim>\<open>ensure_dir\<close> or \<^verbatim>\<open>write_rows\<close> is not caught.
\<close>

definition do_snapshot ::
  "(json \<Rightarrow> string) \<Rightarrow> fs \<Rightarrow> string \<Rightarrow> string \<Rightarrow> string \<Rightarrow> fetch_error + pydict list
     \<Rightarrow> fs \<times> message list \<times> (error + nat)" where
  "do_snapshot py_str s outdir snapshot_ts date_utc fetched =
     (case fetched of
        Inl (HTTPError status_code) \<Rightarrow> (s, [ERROR_HTTP status_code], Inr 0)
      | Inl RequestException \<Rightarrow> (s, [ERROR_Request_failed], Inr 0)
      | Inl OtherException \<Rightarrow> (s, [ERROR_Unexpected], Inr 0)
      | Inr pairs \<Rightarrow>
          let rows = normalize_records pairs snapshot_ts
          in case ensure_dir s outdir of
               Inl e \<Rightarrow> (s, [], Inl e)
             | Inr s1 \<Rightarrow>
                 let csv_path = daily_csv_path outdir date_utc
                 in case write_rows py_str s1 csv_path rows of
                      (s2, Inl e) \<Rightarrow> (s2, [], Inl e)
                    | (s2, Inr added) \<Rightarrow>
                        (s2, [OK_wrote snapshot_ts added csv_path (total_rows s2 csv_path)],
                         Inr added))"

text \<open>A run of \<^verbatim>\<open>write_rows\<close> calls on one path, whatever each call returns or raises.\<close>

fun append_all :: "(json \<Rightarrow> string) \<Rightarrow> fs \<Rightarrow> path \<Rightarrow> pydict list list \<Rightarrow> fs" where
  "append_all py_str s csv_path [] = s"
| "append_all py_str s csv_path (rows # batches) =
     append_all py_str (fst (write_rows py_str s csv_path rows)) csv_path batches"

section \<open>Notions for the statements\<close>

text \<open>
  The text of a partition file whose data rows are \<open>rs\<close>: the header line, then one
  line per row.
\<close>

definition table_text :: "(json \<Rightarrow> string) \<Rightarrow> pydict list \<Rightarrow> string" where
  "table_text py_str rs = csv_writerow fieldnames @ concat (map (row_line py_str) rs)"

text \<open>The text a file holds before a call (nothing when it is absent).\<close>

definition old_text :: "fs \<Rightarrow> path \<Rightarrow> string" where
  "old_text s csv_path = (case files s csv_path of None \<Rightarrow> [] | Some text \<Rightarrow> text)"

text \<open>The header line, for a file that does not exist yet.\<close>

definition header_if_new :: "fs \<Rightarrow> path \<Rightarrow> string" where
  "header_if_new s csv_path = (if isfile s csv_path then [] else csv_writerow fieldnames)"

text \<open>The key under which a row is found again once it is on disk: its two cells, as strings.\<close>

definition disk_key :: "(json \<Rightarrow> string) \<Rightarrow> pydict \<Rightarrow> dedup_key" where
  "disk_key py_str r =
     (JStr (cell_text py_str (dict_get r ''pairAddress'')),
      JStr (cell_text py_str (dict_get r ''snapshot_ts'')))"

section \<open>Example inputs\<close>

text \<open>Concrete inputs at which the theorems below are instantiated.\<close>

definition fs_empty :: fs where
  "fs_empty = \<lparr>dirs = {}, files = Map.empty, obstacles = Map.empty\<rparr>"

definition fs_data_is_file :: fs where
  "fs_data_is_file = \<lparr>dirs = {}, files = Map.empty, obstacles = [''data'' \<mapsto> IsFile]\<rparr>"

definition fs_data :: fs where
  "fs_data = \<lparr>dirs = {''data''}, files = Map.empty, obstacles = Map.empty\<rparr>"

definition csv_example :: path where
  "csv_example = (''data'', ''dexscreener_solana_2024-01-01.csv'')"

definition no_str :: "json \<Rightarrow> string" where
  "no_str v = []"

definition pair_P1 :: pydict where
  "pair_P1 = [(''pairAddress'', JStr ''P1''), (''baseToken'', JObj [(''symbol'', JStr ''FOO'')])]"

definition fs_with :: "string \<Rightarrow> fs" where
  "fs_with text = \<lparr>dirs = {''data''}, files = [csv_example \<mapsto> text], obstacles = Map.empty\<rparr>"

definition ts_example :: string where
  "ts_example = ''2024-01-01T00:00:00+00:00''"

definition pairs_no_address :: "pydict list" where
  "pairs_no_address = [[(''chainId'', JStr ''solana'')], [(''chainId'', JStr ''base'')]]"

definition pair_P3 :: pydict where
  "pair_P3 = [(''pairAddress'', JStr ''P3'')]"

section \<open>Properties\<close>

subsection \<open>The field extractor\<close>

lemma split_sep_not_Nil: "split_sep sep s \<noteq> []"
  by (induction s) (auto split: list.splits)

lemma walks_get_nested_loop: "walks d parts v \<Longrightarrow> get_nested_loop d parts dflt = v"
  by (induction rule: walks.induct) simp_all

lemma get_nested_loop_cases:
  "walks d parts (get_nested_loop d parts dflt) \<or>
   ((\<nexists>v. walks d parts v) \<and> get_nested_loop d parts dflt = dflt)"
proof (induction d parts dflt rule: get_nested_loop.induct)
  case (1 cur dflt)
  show ?case by (simp add: walks_end)
next
  case (2 cur part parts dflt)
  show ?case
  proof (cases cur)
    case (JObj kvs)
    show ?thesis
    proof (cases "map_of kvs part")
      case None
      with JObj show ?thesis by (auto elim: walks_ConsE)
    next
      case (Some w)
      from 2 JObj Some
      have "walks w parts (get_nested_loop w parts dflt) \<or>
            ((\<nexists>v. walks w parts v) \<and> get_nested_loop w parts dflt = dflt)"
        by simp
      then show ?thesis
      proof
        assume "walks w parts (get_nested_loop w parts dflt)"
        with JObj Some show ?thesis by (simp add: walks_step)
      next
        assume "(\<nexists>v. walks w parts v) \<and> get_nested_loop w parts dflt = dflt"
        with JObj Some show ?thesis by (auto elim: walks_ConsE)
      qed
    qed
  qed (auto elim: walks_ConsE)
qed

lemma get_nested_found:
  "walks d (split_sep (CHR ''.'') path) v \<Longrightarrow> get_nested d path dflt = v"
  by (simp add: get_nested_def walks_get_nested_loop)

lemma get_nested_missing:
  "\<nexists>w. walks d (split_sep (CHR ''.'') path) w \<Longrightarrow> get_nested d path dflt = dflt"
  using get_nested_loop_cases [of d "split_sep (CHR ''.'') path" dflt]
  by (auto simp: get_nested_def)

text \<open>
  C4. For every node \<open>d\<close> (mapping or not), every path and every default:
  when the path leads through nested mappings to a value, \<open>get_nested\<close> returns that
  value as it is; when it does not (a segment is absent, or the value reached before the
  last segment is not a mapping), it returns the default. There is no raising branch: a
  non-mapping is tested before it is indexed, and a key is tested before it is read.
\<close>

theorem get_nested_contract:
  "(walks d (split_sep (CHR ''.'') path) v \<longrightarrow> get_nested d path dflt = v) \<and>
   ((\<nexists>w. walks d (split_sep (CHR ''.'') path) w) \<longrightarrow> get_nested d path dflt = dflt) \<and>
   (\<forall>part parts. (\<forall>kvs. d \<noteq> JObj kvs) \<longrightarrow> get_nested_loop d (part # parts) dflt = dflt) \<and>
   (\<forall>kvs part parts. map_of kvs part = None \<longrightarrow> get_nested_loop (JObj kvs) (part # parts) dflt = dflt)"
proof (intro conjI impI allI)
  assume "walks d (split_sep (CHR ''.'') path) v"
  then show "get_nested d path dflt = v"
    by (simp add: get_nested_def walks_get_nested_loop)
next
  assume "\<nexists>w. walks d (split_sep (CHR ''.'') path) w"
  with get_nested_loop_cases [of d "split_sep (CHR ''.'') path" dflt]
  show "get_nested d path dflt = dflt"
    by (auto simp: get_nested_def)
next
  fix part parts
  assume "\<forall>kvs. d \<noteq> JObj kvs"
  then show "get_nested_loop d (part # parts) dflt = dflt"
    by (cases d) simp_all
next
  fix kvs :: "(string \<times> json) list" and part :: string and parts :: "string list"
  assume "map_of kvs part = None"
  then show "get_nested_loop (JObj kvs) (part # parts) dflt = dflt"
    by simp
qed


theorem get_nested_contract_witness:
  "walks (JObj pair_P1) (split_sep (CHR ''.'') ''baseToken.symbol'') (JStr ''FOO'') \<and>
   get_nested (JObj pair_P1) ''baseToken.symbol'' JNull = JStr ''FOO'' \<and>
   (\<nexists>w. walks (JObj pair_P1) (split_sep (CHR ''.'') ''liquidity.usd'') w) \<and>
   get_nested (JObj pair_P1) ''liquidity.usd'' JNull = JNull \<and>
   (\<forall>kvs. JStr ''P1'' \<noteq> JObj kvs) \<and>
   get_nested_loop (JStr ''P1'') [''symbol''] JNull = JNull \<and>
   map_of pair_P1 ''liquidity'' = None \<and>
   get_nested_loop (JObj pair_P1) [''liquidity'', ''usd''] JNull = JNull"
proof -
  have "walks (JStr ''FOO'') [] (JStr ''FOO'')" by (rule walks_end)
  then have "walks (JObj [(''symbol'', JStr ''FOO'')]) [''symbol''] (JStr ''FOO'')"
    by (rule walks_step [rotated]) simp
  then have "walks (JObj pair_P1) [''baseToken'', ''symbol''] (JStr ''FOO'')"
    unfolding pair_P1_def by (rule walks_step [rotated]) simp
  then have w: "walks (JObj pair_P1) (split_sep (CHR ''.'') ''baseToken.symbol'') (JStr ''FOO'')"
    by simp
  have n: "\<nexists>w. walks (JObj pair_P1) (split_sep (CHR ''.'') ''liquidity.usd'') w"
    by (auto simp: pair_P1_def elim: walks_ConsE)
  have k: "\<forall>kvs. JStr ''P1'' \<noteq> JObj kvs" by simp
  have m: "map_of pair_P1 ''liquidity'' = None" by (simp add: pair_P1_def)
  from get_nested_contract [of "JObj pair_P1" "''baseToken.symbol''" "JStr ''FOO''" JNull] w
  have 1: "get_nested (JObj pair_P1) ''baseToken.symbol'' JNull = JStr ''FOO''" by blast
  from get_nested_contract [of "JObj pair_P1" "''liquidity.usd''" JNull JNull] n
  have 2: "get_nested (JObj pair_P1) ''liquidity.usd'' JNull = JNull" by blast
  from get_nested_contract [of "JStr ''P1''" "[]" JNull JNull] k
  have 3: "get_nested_loop (JStr ''P1'') [''symbol''] JNull = JNull" by blast
  from get_nested_contract [of "JObj pair_P1" "[]" JNull JNull] m
  have 4: "get_nested_loop (JObj pair_P1) [''liquidity'', ''usd''] JNull = JNull" by blast
  from w n k m 1 2 3 4 show ?thesis by blast
qed

subsection \<open>The record normalizer\<close>

lemma normalize_loop_map:
  "normalize_loop out pairs ts = out @ map (\<lambda>p. normalize_record p ts) pairs"
  by (induction pairs arbitrary: out) simp_all

lemma normalize_records_map:
  "normalize_records pairs ts = map (\<lambda>p. normalize_record p ts) pairs"
  by (simp add: normalize_records_def normalize_loop_map)

lemma normalize_record_fields: "map fst (normalize_record p ts) = fieldnames"
  by (simp add: normalize_record_def fieldnames_def)

lemma fieldnames_length: "length fieldnames = 30"
  by (simp add: fieldnames_def)

lemma dict_get_Nil: "dict_get [] key = JNull"
  by (simp add: dict_get_def)

lemma dict_get_Cons: "dict_get ((k, v) # d) key = (if k = key then v else dict_get d key)"
  by (simp add: dict_get_def)
lemma get_nested_top: "CHR ''.'' \<notin> set k \<Longrightarrow> get_nested (JObj p) k JNull = dict_get p k"
proof -
  assume "CHR ''.'' \<notin> set k"
  then have "split_sep (CHR ''.'') k = [k]"
    by (induction k) auto
  then show ?thesis by (simp add: get_nested_def dict_get_def split: option.splits)
qed

lemma normalize_record_sources_list:
  "normalize_record p ts =
   (''snapshot_ts'', JStr ts) # map (\<lambda>(field, path). (field, get_nested (JObj p) path JNull)) field_sources"
  unfolding field_sources_def normalize_record_def
  by (simp add: get_nested_top)

lemma field_sources_names: "map fst field_sources = tl fieldnames"
  by (simp add: field_sources_def fieldnames_def)

lemma fieldnames_distinct: "distinct fieldnames"
  by (simp add: fieldnames_def)

lemma field_sources_distinct: "distinct (map fst field_sources)"
  using fieldnames_distinct by (simp add: field_sources_names distinct_tl)

lemma field_sources_not_ts: "(field, path) \<in> set field_sources \<Longrightarrow> field \<noteq> ''snapshot_ts''"
proof -
  assume "(field, path) \<in> set field_sources"
  then have "field \<in> set (tl fieldnames)"
    using field_sources_names by (metis image_eqI fst_conv set_map)
  moreover have "fieldnames = ''snapshot_ts'' # tl fieldnames" by (simp add: fieldnames_def)
  ultimately show ?thesis using fieldnames_distinct by (metis distinct.simps(2))
qed

lemma map_of_sources:
  "distinct (map fst xs) \<Longrightarrow> (field, path) \<in> set xs \<Longrightarrow>
   map_of (map (\<lambda>(field, path). (field, g path)) xs) field = Some (g path)"
  by (induction xs) (auto simp: rev_image_eqI)

lemma normalize_record_sources:
  assumes "(field, path) \<in> set field_sources"
  shows "dict_get (normalize_record p ts) field = get_nested (JObj p) path JNull"
  using map_of_sources [OF field_sources_distinct assms, of "\<lambda>path. get_nested (JObj p) path JNull"]
    field_sources_not_ts [OF assms]
  by (simp add: normalize_record_sources_list dict_get_def)

lemma normalize_record_ts: "dict_get (normalize_record p ts) ''snapshot_ts'' = JStr ts"
  by (simp add: normalize_record_def dict_get_Cons)

text \<open>
  C3. \<open>normalize_records\<close> returns one row per input record, in the order of the input,
  and every row has the thirty columns of \<open>fieldnames\<close>, in that order, whatever the
  record holds: \<open>snapshot_ts\<close> is the timestamp given, and every other column holds the
  value its source path leads to, or \<^verbatim>\<open>None\<close> (\<open>JNull\<close>) when the path leads nowhere.
  The function has no raising branch.
\<close>

theorem normalize_records_rows:
  "length (normalize_records pairs ts) = length pairs \<and>
   length fieldnames = 30 \<and> distinct fieldnames \<and>
   (\<forall>i < length pairs.
      normalize_records pairs ts ! i = normalize_record (pairs ! i) ts \<and>
      map fst (normalize_records pairs ts ! i) = fieldnames \<and>
      dict_get (normalize_records pairs ts ! i) ''snapshot_ts'' = JStr ts \<and>
      (\<forall>(field, path) \<in> set field_sources.
         (\<forall>v. walks (JObj (pairs ! i)) (split_sep (CHR ''.'') path) v \<longrightarrow>
              dict_get (normalize_records pairs ts ! i) field = v) \<and>
         ((\<nexists>v. walks (JObj (pairs ! i)) (split_sep (CHR ''.'') path) v) \<longrightarrow>
              dict_get (normalize_records pairs ts ! i) field = JNull)))"
proof (intro conjI allI impI)
  show "length (normalize_records pairs ts) = length pairs"
    by (simp add: normalize_records_map)
  show "length fieldnames = 30" by (rule fieldnames_length)
  show "distinct fieldnames" by (rule fieldnames_distinct)
next
  fix i assume i: "i < length pairs"
  then show row: "normalize_records pairs ts ! i = normalize_record (pairs ! i) ts"
    by (simp add: normalize_records_map)
  show "map fst (normalize_records pairs ts ! i) = fieldnames"
    by (simp add: row normalize_record_fields)
  show "dict_get (normalize_records pairs ts ! i) ''snapshot_ts'' = JStr ts"
    by (simp add: row normalize_record_ts)
  show "\<forall>(field, path) \<in> set field_sources.
         (\<forall>v. walks (JObj (pairs ! i)) (split_sep (CHR ''.'') path) v \<longrightarrow>
              dict_get (normalize_records pairs ts ! i) field = v) \<and>
         ((\<nexists>v. walks (JObj (pairs ! i)) (split_sep (CHR ''.'') path) v) \<longrightarrow>
              dict_get (normalize_records pairs ts ! i) field = JNull)"
  proof (intro ballI, clarify, intro conjI allI impI)
    fix field path v
    assume "(field, path) \<in> set field_sources"
    then have eq: "dict_get (normalize_records pairs ts ! i) field =
                   get_nested (JObj (pairs ! i)) path JNull"
      by (simp add: row normalize_record_sources)
    { assume "walks (JObj (pairs ! i)) (split_sep (CHR ''.'') path) v"
      then show "dict_get (normalize_records pairs ts ! i) field = v"
        using get_nested_found [of "JObj (pairs ! i)" path v JNull] eq by simp }
    { assume "\<nexists>v. walks (JObj (pairs ! i)) (split_sep (CHR ''.'') path) v"
      then show "dict_get (normalize_records pairs ts ! i) field = JNull"
        using get_nested_missing [of "JObj (pairs ! i)" path JNull] eq by simp }
  qed
qed


theorem normalize_records_rows_witness:
  "(0::nat) < length [pair_P1] \<and>
   map fst (normalize_records [pair_P1] ''t'' ! 0) = fieldnames \<and>
   (''baseToken_symbol'', ''baseToken.symbol'') \<in> set field_sources \<and>
   walks (JObj pair_P1) (split_sep (CHR ''.'') ''baseToken.symbol'') (JStr ''FOO'') \<and>
   dict_get (normalize_records [pair_P1] ''t'' ! 0) ''baseToken_symbol'' = JStr ''FOO'' \<and>
   (''liquidity_usd'', ''liquidity.usd'') \<in> set field_sources \<and>
   (\<nexists>v. walks (JObj pair_P1) (split_sep (CHR ''.'') ''liquidity.usd'') v) \<and>
   dict_get (normalize_records [pair_P1] ''t'' ! 0) ''liquidity_usd'' = JNull"
proof -
  have i: "(0::nat) < length [pair_P1]" by simp
  have s1: "(''baseToken_symbol'', ''baseToken.symbol'') \<in> set field_sources"
    by (simp add: field_sources_def)
  have s2: "(''liquidity_usd'', ''liquidity.usd'') \<in> set field_sources"
    by (simp add: field_sources_def)
  have "walks (JStr ''FOO'') [] (JStr ''FOO'')" by (rule walks_end)
  then have "walks (JObj [(''symbol'', JStr ''FOO'')]) [''symbol''] (JStr ''FOO'')"
    by (rule walks_step [rotated]) simp
  then have "walks (JObj pair_P1) [''baseToken'', ''symbol''] (JStr ''FOO'')"
    unfolding pair_P1_def by (rule walks_step [rotated]) simp
  then have w: "walks (JObj ([pair_P1] ! 0)) (split_sep (CHR ''.'') ''baseToken.symbol'') (JStr ''FOO'')"
    by simp
  have n: "\<nexists>v. walks (JObj ([pair_P1] ! 0)) (split_sep (CHR ''.'') ''liquidity.usd'') v"
    by (auto simp: pair_P1_def elim: walks_ConsE)
  note all = normalize_records_rows [of "[pair_P1]" "''t''"]
  from all i have f: "map fst (normalize_records [pair_P1] ''t'' ! 0) = fieldnames"
    by blast
  from all i s1 w
  have a: "dict_get (normalize_records [pair_P1] ''t'' ! 0) ''baseToken_symbol'' = JStr ''FOO''"
    by blast
  from all i s2 n
  have b: "dict_get (normalize_records [pair_P1] ''t'' ! 0) ''liquidity_usd'' = JNull"
    by blast
  from i f s1 w a s2 n b show ?thesis by simp
qed

subsection \<open>Reading back what the writer wrote\<close>

lemma reader_run_unquoted:
  "\<not> list_ex is_special s \<Longrightarrow>
   reader_run (IN_FIELD, fs, f) (s @ rest) = reader_run (IN_FIELD, fs, f @ s) rest"
  by (induction s arbitrary: f) (auto simp: is_special_def)

lemma reader_run_quoted:
  "reader_run (IN_QUOTED_FIELD, fs, f) (double_quotes s @ DQ # rest) =
   reader_run (QUOTE_IN_QUOTED_FIELD, fs, f @ s) rest"
  by (induction s arbitrary: f) auto

lemma reader_run_field:
  "reader_run (START_FIELD, fs, []) (csv_field s @ rest) =
   reader_run (after_field s, fs, s) rest"
proof (cases "list_ex is_special s")
  case True
  then show ?thesis
    using reader_run_quoted [of fs "[]" s rest]
    by (simp add: csv_field_def after_field_def start_field_char_def)
next
  case False
  show ?thesis
  proof (cases s)
    case Nil
    then show ?thesis by (simp add: csv_field_def after_field_def)
  next
    case (Cons c cs)
    with False have "\<not> is_special c" "\<not> list_ex is_special cs" by simp_all
    then show ?thesis
      using False Cons reader_run_unquoted [of cs fs "[c]" rest]
      by (simp add: csv_field_def after_field_def start_field_char_def is_special_def)
  qed
qed

lemma after_field_comma:
  "reader_run (after_field s, fs, s) (COMMA # rest) = reader_run (START_FIELD, fs @ [s], []) rest"
  by (simp add: after_field_def start_field_char_def)

lemma after_field_crlf:
  "reader_run (after_field s, fs, s) (CR # LF # rest) =
   (fs @ [s]) # reader_run (START_RECORD, [], []) rest"
  by (simp add: after_field_def start_field_char_def)

lemma after_field_end:
  "reader_run (after_field s, fs, s) [] = [fs @ [s]]"
  by (simp add: after_field_def)

lemma reader_run_join_crlf:
  "reader_run (START_FIELD, fs, []) (csv_join (c # cs) @ CR # LF # rest) =
   (fs @ c # cs) # reader_run (START_RECORD, [], []) rest"
proof (induction cs arbitrary: fs c)
  case Nil
  show ?case by (simp add: reader_run_field after_field_crlf del: reader_run.simps)
next
  case (Cons d ds)
  show ?case
    using Cons [of "fs @ [c]" d]
    by (simp add: reader_run_field after_field_comma del: reader_run.simps)
qed

lemma reader_run_join_end:
  "reader_run (START_FIELD, fs, []) (csv_join (c # cs)) = [fs @ c # cs]"
proof (induction cs arbitrary: fs c)
  case Nil
  show ?case using reader_run_field [of fs c "[]"] by (simp add: after_field_end del: reader_run.simps)
next
  case (Cons d ds)
  show ?case
    using Cons [of "fs @ [c]" d]
    by (simp add: reader_run_field after_field_comma del: reader_run.simps)
qed

lemma reader_run_start_record:
  "c \<noteq> CR \<Longrightarrow> c \<noteq> LF \<Longrightarrow>
   reader_run (START_RECORD, [], []) (c # cs) = reader_run (START_FIELD, [], []) (c # cs)"
  by (simp add: start_record_char_def)

lemma csv_field_hd: "csv_field s = x # xs \<Longrightarrow> x \<noteq> CR \<and> x \<noteq> LF"
  by (cases s) (auto simp: csv_field_def is_special_def split: if_splits)

lemma csv_join_hd: "csv_join cells = x # xs \<Longrightarrow> x \<noteq> CR \<and> x \<noteq> LF"
proof (induction cells rule: csv_join.induct)
  case 1
  then show ?case by simp
next
  case (2 f)
  then show ?case using csv_field_hd [of f x xs] by simp
next
  case (3 f g fs)
  show ?case
  proof (cases "csv_field f")
    case Nil
    with 3 show ?thesis by auto
  next
    case (Cons y ys)
    with 3 have "x = y" by simp
    with Cons csv_field_hd [of f y ys] show ?thesis by simp
  qed
qed

lemma csv_writerow_line: "csv_writerow cells = csv_line cells @ [CR, LF]"
  by (simp add: csv_writerow_def)

lemma csv_join_Nil_iff: "csv_join (c # cs) = [] \<longleftrightarrow> c = [] \<and> cs = []"
proof (cases cs)
  case Nil
  then show ?thesis by (auto simp: csv_field_def)
next
  case (Cons d ds)
  then show ?thesis by simp
qed

lemma reader_run_line_crlf:
  "reader_run (START_RECORD, [], []) (csv_line cells @ CR # LF # rest) =
   cells # reader_run (START_RECORD, [], []) rest"
proof (cases cells)
  case Nil
  then show ?thesis by (simp add: csv_line_def start_record_char_def)
next
  case (Cons c cs)
  show ?thesis
  proof (cases "csv_join (c # cs)")
    case Nil
    then have "c = []" "cs = []" using csv_join_Nil_iff [of c cs] by simp_all
    with Cons show ?thesis
      by (simp add: csv_line_def csv_field_def start_record_char_def start_field_char_def)
  next
    case (Cons x xs)
    then have "x \<noteq> CR" "x \<noteq> LF" using csv_join_hd [of "c # cs" x xs] by simp_all
    then have "reader_run (START_RECORD, [], []) (x # xs @ CR # LF # rest) =
               reader_run (START_FIELD, [], []) (x # xs @ CR # LF # rest)"
      by (rule reader_run_start_record)
    with Cons \<open>cells = c # cs\<close> reader_run_join_crlf [of "[]" c cs rest]
    show ?thesis by (simp add: csv_line_def del: reader_run.simps csv_join.simps)
  qed
qed

lemma reader_run_line_end:
  "cells \<noteq> [] \<Longrightarrow> reader_run (START_RECORD, [], []) (csv_line cells) = [cells]"
proof (cases cells)
  case Nil
  assume "cells \<noteq> []"
  with Nil show ?thesis by simp
next
  case (Cons c cs)
  show ?thesis
  proof (cases "csv_join (c # cs)")
    case Nil
    then have "c = []" "cs = []" using csv_join_Nil_iff [of c cs] by simp_all
    with Cons show ?thesis
      by (simp add: csv_line_def csv_field_def start_record_char_def start_field_char_def)
  next
    case (Cons x xs)
    then have "x \<noteq> CR" "x \<noteq> LF" using csv_join_hd [of "c # cs" x xs] by simp_all
    then have "reader_run (START_RECORD, [], []) (x # xs) =
               reader_run (START_FIELD, [], []) (x # xs)"
      by (rule reader_run_start_record)
    with Cons \<open>cells = c # cs\<close> reader_run_join_end [of "[]" c cs]
    show ?thesis by (simp add: csv_line_def del: reader_run.simps csv_join.simps)
  qed
qed

lemma reader_run_rows:
  "reader_run (START_RECORD, [], []) (concat (map csv_writerow rows) @ rest) =
   rows @ reader_run (START_RECORD, [], []) rest"
proof (induction rows)
  case Nil
  show ?case by simp
next
  case (Cons r rows)
  have eq: "concat (map csv_writerow (r # rows)) @ rest =
            csv_line r @ CR # LF # (concat (map csv_writerow rows) @ rest)"
    by (simp add: csv_writerow_line)
  show ?case unfolding eq reader_run_line_crlf Cons by simp
qed

lemma csv_reader_rows: "csv_reader (concat (map csv_writerow rows)) = rows"
  using reader_run_rows [of rows "[]"] by (simp add: csv_reader_def)

lemma csv_reader_rows_open:
  "r \<noteq> [] \<Longrightarrow> csv_reader (concat (map csv_writerow rows) @ csv_line r) = rows @ [r]"
  using reader_run_rows [of rows "csv_line r"] reader_run_line_end [of r]
  by (simp add: csv_reader_def del: reader_run.simps)

subsection \<open>The field size limit\<close>

lemma parse_process_char_bounds:
  assumes "parse_process_char (st, flds, fld) c = (out, (st', flds', fld'))"
    and "length fld \<le> field_limit" and "\<forall>f \<in> set flds. length f \<le> field_limit"
  shows "(\<forall>f \<in> set flds'. length f \<le> field_limit) \<and>
         (\<forall>r. out = Some r \<longrightarrow> (\<forall>f \<in> set r. length f \<le> field_limit)) \<and>
         (field_limit < length fld' \<longrightarrow> st' \<noteq> START_RECORD \<and> st' \<noteq> EAT_CRNL)"
  using assms
  by (cases st) (auto simp: start_field_char_def start_record_char_def split: if_splits)

lemma reader_run_keeps_long_field:
  "st \<noteq> START_RECORD \<Longrightarrow> st \<noteq> EAT_CRNL \<Longrightarrow>
   field_limit < length fld \<or> (\<exists>f \<in> set flds. field_limit < length f) \<Longrightarrow>
   \<exists>r \<in> set (reader_run (st, flds, fld) chars). \<exists>f \<in> set r. field_limit < length f"
proof (induction chars arbitrary: st flds fld)
  case Nil
  then show ?case by auto
next
  case (Cons c cs)
  from Cons.prems(3) have long: "\<exists>f \<in> set (flds @ [fld]). field_limit < length f"
    by auto
  have emitted: "\<And>rest. reader_run (st, flds, fld) (c # cs) = (flds @ [fld]) # rest \<Longrightarrow>
      \<exists>r \<in> set (reader_run (st, flds, fld) (c # cs)). \<exists>f \<in> set r. field_limit < length f"
    using long by (metis list.set_intros(1))
  show ?case
  proof (cases st)
    case START_RECORD
    with Cons.prems show ?thesis by simp
  next
    case EAT_CRNL
    with Cons.prems show ?thesis by simp
  next
    case START_FIELD
    consider "c = LF \<or> c = CR" | "c \<noteq> LF" "c \<noteq> CR" "c = DQ"
      | "c \<noteq> LF" "c \<noteq> CR" "c \<noteq> DQ" "c = COMMA"
      | "c \<noteq> LF" "c \<noteq> CR" "c \<noteq> DQ" "c \<noteq> COMMA"
      by blast
    then show ?thesis
    proof cases
      case 1
      with START_FIELD show ?thesis
        by (intro emitted [of "reader_run (if c = LF then START_RECORD else EAT_CRNL, [], []) cs"])
           (auto simp: start_field_char_def)
    next
      case 2
      have "\<exists>r \<in> set (reader_run (IN_QUOTED_FIELD, flds, fld) cs). \<exists>f \<in> set r. field_limit < length f"
        using Cons.prems(3) by (intro Cons.IH) simp_all
      with 2 START_FIELD show ?thesis by (simp add: start_field_char_def)
    next
      case 3
      have "\<exists>r \<in> set (reader_run (START_FIELD, flds @ [fld], []) cs). \<exists>f \<in> set r. field_limit < length f"
        using Cons.prems(3) by (intro Cons.IH) auto
      with 3 START_FIELD show ?thesis by (simp add: start_field_char_def)
    next
      case 4
      have "\<exists>r \<in> set (reader_run (IN_FIELD, flds, fld @ [c]) cs). \<exists>f \<in> set r. field_limit < length f"
        using Cons.prems(3) by (intro Cons.IH) auto
      with 4 START_FIELD show ?thesis by (simp add: start_field_char_def)
    qed
  next
    case IN_FIELD
    consider "c = LF \<or> c = CR" | "c \<noteq> LF" "c \<noteq> CR" "c = COMMA"
      | "c \<noteq> LF" "c \<noteq> CR" "c \<noteq> COMMA"
      by blast
    then show ?thesis
    proof cases
      case 1
      with IN_FIELD show ?thesis
        by (intro emitted [of "reader_run (if c = LF then START_RECORD else EAT_CRNL, [], []) cs"])
           auto
    next
      case 2
      have "\<exists>r \<in> set (reader_run (START_FIELD, flds @ [fld], []) cs). \<exists>f \<in> set r. field_limit < length f"
        using Cons.prems(3) by (intro Cons.IH) auto
      with 2 IN_FIELD show ?thesis by simp
    next
      case 3
      have "\<exists>r \<in> set (reader_run (IN_FIELD, flds, fld @ [c]) cs). \<exists>f \<in> set r. field_limit < length f"
        using Cons.prems(3) by (intro Cons.IH) auto
      with 3 IN_FIELD show ?thesis by simp
    qed
  next
    case IN_QUOTED_FIELD
    show ?thesis
    proof (cases "c = DQ")
      case True
      have "\<exists>r \<in> set (reader_run (QUOTE_IN_QUOTED_FIELD, flds, fld) cs). \<exists>f \<in> set r. field_limit < length f"
        using Cons.prems(3) by (intro Cons.IH) simp_all
      with True IN_QUOTED_FIELD show ?thesis by simp
    next
      case False
      have "\<exists>r \<in> set (reader_run (IN_QUOTED_FIELD, flds, fld @ [c]) cs). \<exists>f \<in> set r. field_limit < length f"
        using Cons.prems(3) by (intro Cons.IH) auto
      with False IN_QUOTED_FIELD show ?thesis by simp
    qed
  next
    case QUOTE_IN_QUOTED_FIELD
    consider "c = DQ" | "c \<noteq> DQ" "c = COMMA" | "c \<noteq> DQ" "c \<noteq> COMMA" "c = LF \<or> c = CR"
      | "c \<noteq> DQ" "c \<noteq> COMMA" "c \<noteq> LF" "c \<noteq> CR"
      by blast
    then show ?thesis
    proof cases
      case 1
      have "\<exists>r \<in> set (reader_run (IN_QUOTED_FIELD, flds, fld @ [c]) cs). \<exists>f \<in> set r. field_limit < length f"
        using Cons.prems(3) by (intro Cons.IH) auto
      with 1 QUOTE_IN_QUOTED_FIELD show ?thesis by simp
    next
      case 2
      have "\<exists>r \<in> set (reader_run (START_FIELD, flds @ [fld], []) cs). \<exists>f \<in> set r. field_limit < length f"
        using Cons.prems(3) by (intro Cons.IH) auto
      with 2 QUOTE_IN_QUOTED_FIELD show ?thesis by simp
    next
      case 3
      with QUOTE_IN_QUOTED_FIELD show ?thesis
        by (intro emitted [of "reader_run (if c = LF then START_RECORD else EAT_CRNL, [], []) cs"])
           auto
    next
      case 4
      have "\<exists>r \<in> set (reader_run (IN_FIELD, flds, fld @ [c]) cs). \<exists>f \<in> set r. field_limit < length f"
        using Cons.prems(3) by (intro Cons.IH) auto
      with 4 QUOTE_IN_QUOTED_FIELD show ?thesis by simp
    qed
  qed
qed

text \<open>
  The reader with the limit raises exactly when some cell of some record of the text is
  longer than the limit, and yields the records of the text otherwise.
\<close>

lemma reader_rows_eq:
  "length fld \<le> field_limit \<Longrightarrow> \<forall>f \<in> set flds. length f \<le> field_limit \<Longrightarrow>
   reader_rows (st, flds, fld) chars =
     (if \<exists>r \<in> set (reader_run (st, flds, fld) chars). \<exists>f \<in> set r. field_limit < length f
      then Inl CsvError else Inr (reader_run (st, flds, fld) chars))"
proof (induction chars arbitrary: st flds fld)
  case Nil
  then show ?case by auto
next
  case (Cons c cs)
  obtain out st' flds' fld' where
    step: "parse_process_char (st, flds, fld) c = (out, (st', flds', fld'))"
    by (metis prod_cases3)
  from parse_process_char_bounds [OF step Cons.prems]
  have b: "\<forall>f \<in> set flds'. length f \<le> field_limit"
    "\<And>r. out = Some r \<Longrightarrow> \<forall>f \<in> set r. length f \<le> field_limit"
    "field_limit < length fld' \<Longrightarrow> st' \<noteq> START_RECORD \<and> st' \<noteq> EAT_CRNL"
    by auto
  have run: "reader_run (st, flds, fld) (c # cs) =
      (case out of None \<Rightarrow> reader_run (st', flds', fld') cs
       | Some r \<Rightarrow> r # reader_run (st', flds', fld') cs)"
    using step by (simp split: option.splits)
  show ?case
  proof (cases "field_limit < length fld'")
    case True
    with b(3) reader_run_keeps_long_field [of st' fld' flds' cs]
    have "\<exists>r \<in> set (reader_run (st', flds', fld') cs). \<exists>f \<in> set r. field_limit < length f"
      by simp
    then have "\<exists>r \<in> set (reader_run (st, flds, fld) (c # cs)). \<exists>f \<in> set r. field_limit < length f"
      unfolding run by (cases out) auto
    with True step show ?thesis by (simp del: reader_run.simps parse_process_char.simps)
  next
    case False
    then have "length fld' \<le> field_limit" by simp
    from Cons.IH [OF this b(1)]
    have ih: "reader_rows (st', flds', fld') cs =
      (if \<exists>r \<in> set (reader_run (st', flds', fld') cs). \<exists>f \<in> set r. field_limit < length f
       then Inl CsvError else Inr (reader_run (st', flds', fld') cs))" .
    show ?thesis
    proof (cases out)
      case None
      with False step ih run show ?thesis
        by (simp del: reader_run.simps parse_process_char.simps)
    next
      case (Some r)
      with b(2) have "\<not> (\<exists>f \<in> set r. field_limit < length f)" by fastforce
      with Some False step ih run show ?thesis
        by (simp del: reader_run.simps parse_process_char.simps)
    qed
  qed
qed

lemma read_records_eq:
  "read_records chars =
     (if \<exists>r \<in> set (csv_reader chars). \<exists>f \<in> set r. field_limit < length f
      then Inl CsvError else Inr (csv_reader chars))"
  unfolding read_records_def csv_reader_def by (rule reader_rows_eq) simp_all

subsection \<open>The table store and the orchestrator: errors and directories\<close>

lemma dedup_loop_error: "dedup_loop existing deduped rows = Inl e \<Longrightarrow> e = TypeError"
  by (induction existing deduped rows rule: dedup_loop.induct)
     (auto simp: Let_def split: if_splits)

lemma writerows_error: "snd (writerows py_str rs) = Some e \<Longrightarrow> e = ValueError"
  by (induction rs) (auto split: if_splits prod.splits)

lemma writerows_text:
  "fst (writerows py_str rs) =
   concat (map (row_line py_str) (takeWhile (\<lambda>r. \<not> wrong_fields r) rs))"
  by (induction rs) (auto split: prod.splits)

lemma read_existing_keys_error: "read_existing_keys s p = Inl e \<Longrightarrow> e = CsvError"
  by (auto simp: read_existing_keys_def DictReader_def read_records_eq
      split: option.splits sum.splits if_splits list.splits)

lemma read_existing_keys_absent:
  "files s csv_path = None \<Longrightarrow> read_existing_keys s csv_path = Inr {}"
  by (simp add: read_existing_keys_def)

lemma write_rows_dirs:
  "dirs (fst (write_rows py_str s p rows)) = dirs s \<and>
   obstacles (fst (write_rows py_str s p rows)) = obstacles s"
  by (simp add: write_rows_def Let_def split: sum.splits option.splits)

lemma open_append_error_cases:
  "open_append_error s p = Some e \<Longrightarrow> e = FileNotFoundError \<or> e = NotADirectoryError"
  by (auto simp: open_append_error_def split: if_splits)

lemma write_rows_open:
  assumes "open_append_error s p = None"
  shows "snd (write_rows py_str s p rows) \<noteq> Inl FileNotFoundError \<and>
         snd (write_rows py_str s p rows) \<noteq> Inl NotADirectoryError"
proof (cases "read_existing_keys s p")
  case (Inl e)
  then have "e = CsvError" by (rule read_existing_keys_error)
  with Inl show ?thesis by (simp add: write_rows_def Let_def)
next
  case existing: (Inr existing)
  show ?thesis
  proof (cases "dedup_loop existing [] rows")
    case (Inl e)
    then have "e = TypeError" by (rule dedup_loop_error)
    with Inl existing show ?thesis by (simp add: write_rows_def Let_def)
  next
    case (Inr deduped)
    show ?thesis
    proof (cases "snd (writerows py_str deduped)")
      case None
      with Inr existing assms show ?thesis by (simp add: write_rows_def Let_def)
    next
      case (Some e)
      then have "e = ValueError" by (rule writerows_error)
      with Some Inr existing assms show ?thesis by (simp add: write_rows_def Let_def)
    qed
  qed
qed

lemma write_rows_no_parent:
  assumes "fst csv_path \<noteq> []" "\<not> isdir s (fst csv_path)" "deduped \<noteq> []"
    and "read_existing_keys s csv_path = Inr existing"
    and "dedup_loop existing [] rows = Inr deduped"
  shows "write_rows py_str s csv_path rows =
           (s, Inl (if obstacles s (fst csv_path) = None then FileNotFoundError
                    else NotADirectoryError))"
proof -
  from assms(3,5) have "rows \<noteq> []" by auto
  with assms show ?thesis
    by (simp add: write_rows_def Let_def open_append_error_def)
qed

text \<open>
  C9. With an empty candidate list \<open>write_rows\<close> returns 0 at once: the file system it
  leaves is the one it was given (no file created, none changed, no directory made), for
  every file system, so the result does not depend on what the path holds.
\<close>

theorem write_rows_no_rows: "write_rows py_str s csv_path [] = (s, Inr 0)"
  by (simp add: write_rows_def)

lemma ensure_dir_isdir: "ensure_dir s d = Inr s1 \<Longrightarrow> isdir s1 d"
  by (auto simp: ensure_dir_def makedirs_def isdir_def split: if_splits option.splits obstacle.splits)

lemma ensure_dir_empty: "ensure_dir s [] = Inl FileNotFoundError"
  by (simp add: ensure_dir_def makedirs_def isdir_def)

lemma ensure_dir_open:
  "ensure_dir s outdir = Inr s1 \<Longrightarrow> open_append_error s1 (daily_csv_path outdir date_utc) = None"
  using ensure_dir_isdir [of s outdir s1] by (simp add: open_append_error_def daily_csv_path_def)

text \<open>
  C6. When the fetch fails, by whichever of the three handlers it is caught,
  \<open>do_snapshot\<close> returns 0, raises nothing and leaves the file system as it was. When
  the fetch succeeds and the append, made on the file system \<open>ensure_dir\<close> leaves,
  returns a count, \<open>do_snapshot\<close> returns that count and leaves the file system the
  append left.
\<close>

theorem do_snapshot_outcome:
  "fst (do_snapshot py_str s outdir snapshot_ts date_utc (Inl e)) = s \<and>
   snd (snd (do_snapshot py_str s outdir snapshot_ts date_utc (Inl e))) = Inr 0 \<and>
   (\<forall>s1 s2 added.
      ensure_dir s outdir = Inr s1 \<and>
      write_rows py_str s1 (daily_csv_path outdir date_utc)
        (normalize_records pairs snapshot_ts) = (s2, Inr added) \<longrightarrow>
      fst (do_snapshot py_str s outdir snapshot_ts date_utc (Inr pairs)) = s2 \<and>
      snd (snd (do_snapshot py_str s outdir snapshot_ts date_utc (Inr pairs))) = Inr added)"
  by (cases e) (simp_all add: do_snapshot_def Let_def)

lemma row_key_normalize_record:
  "row_key (normalize_record p ts) = (dict_get p ''pairAddress'', JStr ts)"
  by (simp add: row_key_def normalize_record_def dict_get_Cons)

lemma wrong_fields_normalize_record: "\<not> wrong_fields (normalize_record p ts)"
  by (simp add: wrong_fields_def normalize_record_fields list_ex_iff)

lemma ensure_dir_data: "ensure_dir fs_empty ''data'' = Inr fs_data"
  by (simp add: ensure_dir_def makedirs_def isdir_def fs_empty_def fs_data_def)

lemma first_write_P1_added:
  "snd (write_rows no_str fs_data (daily_csv_path ''data'' ''2024-01-01'')
     (normalize_records [pair_P1] ''t'')) = Inr 1"
  by (simp add: write_rows_def normalize_records_def Let_def read_existing_keys_def
      open_append_error_def isdir_def isfile_def fs_data_def daily_csv_path_def
      row_key_normalize_record wrong_fields_normalize_record pair_P1_def dict_get_Cons set_key_def)

theorem do_snapshot_outcome_witness:
  "fst (do_snapshot no_str fs_empty ''data'' ''t'' ''2024-01-01'' (Inl (HTTPError 503))) = fs_empty \<and>
   snd (snd (do_snapshot no_str fs_empty ''data'' ''t'' ''2024-01-01'' (Inl (HTTPError 503)))) = Inr 0 \<and>
   ensure_dir fs_empty ''data'' = Inr fs_data \<and>
   snd (snd (do_snapshot no_str fs_empty ''data'' ''t'' ''2024-01-01'' (Inr [pair_P1]))) = Inr 1"
proof -
  let ?w = "write_rows no_str fs_data (daily_csv_path ''data'' ''2024-01-01'')
              (normalize_records [pair_P1] ''t'')"
  have "?w = (fst ?w, Inr 1)"
    using first_write_P1_added by (simp add: prod_eq_iff)
  with ensure_dir_data
    do_snapshot_outcome [of no_str fs_empty "''data''" "''t''" "''2024-01-01''" "HTTPError 503" "[pair_P1]"]
  show ?thesis by blast
qed

text \<open>
  C8, as the claim states it, fails: \<open>write_rows\<close> does not create the parent
  directory. With no directory \<open>data\<close> and one new row it raises
  \<^verbatim>\<open>FileNotFoundError\<close> and creates nothing.
\<close>

theorem missing_directory_counterexample:
  "write_rows no_str fs_empty csv_example (normalize_records [pair_P1] ''t'') =
     (fs_empty, Inl FileNotFoundError)"
  by (simp add: write_rows_def normalize_records_def Let_def read_existing_keys_def
      open_append_error_def isdir_def isfile_def fs_empty_def csv_example_def
      row_key_normalize_record pair_P1_def dict_get_Cons set_key_def)

text \<open>
  C8, amended. \<open>write_rows\<close> never creates a directory. When the directory its path
  names (a name that is not empty: the empty name stands for the current directory) does
  not exist and a row survives the filter, the \<^verbatim>\<open>open\<close> raises
  (\<^verbatim>\<open>FileNotFoundError\<close>, or \<^verbatim>\<open>NotADirectoryError\<close> when a regular file is in the way)
  and nothing is changed. It is the caller \<open>do_snapshot\<close> that calls \<open>ensure_dir\<close> on
  the output directory before \<open>write_rows\<close>. When \<open>ensure_dir\<close> returns, the directory
  exists, the \<^verbatim>\<open>open\<close> of the append finds its parent directory, and \<open>do_snapshot\<close>
  returns or raises what \<open>write_rows\<close> does, never for a missing parent directory. When
  \<open>ensure_dir\<close> raises, as it does for the empty directory name, \<open>do_snapshot\<close> raises
  the same exception before \<open>write_rows\<close> is called, and nothing is changed.
\<close>

theorem directory_ensured_by_do_snapshot:
  "dirs (fst (write_rows py_str s csv_path rows)) = dirs s \<and>
   (\<forall>existing deduped.
      fst csv_path \<noteq> [] \<and> \<not> isdir s (fst csv_path) \<and> deduped \<noteq> [] \<and>
      read_existing_keys s csv_path = Inr existing \<and>
      dedup_loop existing [] rows = Inr deduped \<longrightarrow>
      write_rows py_str s csv_path rows =
        (s, Inl (if obstacles s (fst csv_path) = None then FileNotFoundError
                 else NotADirectoryError))) \<and>
   (\<forall>s1. ensure_dir s outdir = Inr s1 \<longrightarrow>
      isdir s1 (fst (daily_csv_path outdir date_utc)) \<and>
      open_append_error s1 (daily_csv_path outdir date_utc) = None \<and>
      snd (write_rows py_str s1 (daily_csv_path outdir date_utc)
             (normalize_records pairs snapshot_ts)) \<noteq> Inl FileNotFoundError \<and>
      snd (write_rows py_str s1 (daily_csv_path outdir date_utc)
             (normalize_records pairs snapshot_ts)) \<noteq> Inl NotADirectoryError \<and>
      fst (do_snapshot py_str s outdir snapshot_ts date_utc (Inr pairs)) =
        fst (write_rows py_str s1 (daily_csv_path outdir date_utc)
               (normalize_records pairs snapshot_ts)) \<and>
      snd (snd (do_snapshot py_str s outdir snapshot_ts date_utc (Inr pairs))) =
        snd (write_rows py_str s1 (daily_csv_path outdir date_utc)
               (normalize_records pairs snapshot_ts))) \<and>
   (\<forall>e. ensure_dir s outdir = Inl e \<longrightarrow>
      do_snapshot py_str s outdir snapshot_ts date_utc (Inr pairs) = (s, [], Inl e)) \<and>
   ensure_dir s [] = Inl FileNotFoundError"
proof (intro conjI allI impI)
  show "dirs (fst (write_rows py_str s csv_path rows)) = dirs s"
    by (simp add: write_rows_dirs)
next
  fix existing deduped
  assume a: "fst csv_path \<noteq> [] \<and> \<not> isdir s (fst csv_path) \<and> deduped \<noteq> [] \<and>
      read_existing_keys s csv_path = Inr existing \<and>
      dedup_loop existing [] rows = Inr deduped"
  then have "fst csv_path \<noteq> []" "\<not> isdir s (fst csv_path)" "deduped \<noteq> []"
    "read_existing_keys s csv_path = Inr existing" "dedup_loop existing [] rows = Inr deduped"
    by simp_all
  then show "write_rows py_str s csv_path rows =
        (s, Inl (if obstacles s (fst csv_path) = None then FileNotFoundError
                 else NotADirectoryError))"
    by (rule write_rows_no_parent)
next
  fix s1
  let ?w = "write_rows py_str s1 (daily_csv_path outdir date_utc)
              (normalize_records pairs snapshot_ts)"
  assume e: "ensure_dir s outdir = Inr s1"
  then show "isdir s1 (fst (daily_csv_path outdir date_utc))"
    by (simp add: daily_csv_path_def ensure_dir_isdir)
  from e show o: "open_append_error s1 (daily_csv_path outdir date_utc) = None"
    by (rule ensure_dir_open)
  from write_rows_open [OF o]
  show "snd ?w \<noteq> Inl FileNotFoundError" "snd ?w \<noteq> Inl NotADirectoryError"
    by simp_all
  from e show "fst (do_snapshot py_str s outdir snapshot_ts date_utc (Inr pairs)) = fst ?w"
    by (cases ?w) (auto simp: do_snapshot_def Let_def split: sum.splits)
  from e show "snd (snd (do_snapshot py_str s outdir snapshot_ts date_utc (Inr pairs))) = snd ?w"
    by (cases ?w) (auto simp: do_snapshot_def Let_def split: sum.splits)
next
  fix e
  assume "ensure_dir s outdir = Inl e"
  then show "do_snapshot py_str s outdir snapshot_ts date_utc (Inr pairs) = (s, [], Inl e)"
    by (simp add: do_snapshot_def Let_def)
next
  show "ensure_dir s [] = Inl FileNotFoundError" by (rule ensure_dir_empty)
qed

theorem directory_ensured_by_do_snapshot_witness:
  "fst csv_example \<noteq> [] \<and> \<not> isdir fs_empty (fst csv_example) \<and>
   normalize_records [pair_P1] ''t'' \<noteq> [] \<and>
   read_existing_keys fs_empty csv_example = Inr {} \<and>
   dedup_loop {} [] (normalize_records [pair_P1] ''t'') = Inr (normalize_records [pair_P1] ''t'') \<and>
   write_rows no_str fs_empty csv_example (normalize_records [pair_P1] ''t'') =
     (fs_empty, Inl FileNotFoundError) \<and>
   ensure_dir fs_empty ''data'' = Inr fs_data \<and>
   isdir fs_data (fst (daily_csv_path ''data'' ''2024-01-01'')) \<and>
   snd (snd (do_snapshot no_str fs_empty ''data'' ''t'' ''2024-01-01'' (Inr [pair_P1]))) = Inr 1 \<and>
   ensure_dir fs_empty [] = Inl FileNotFoundError \<and>
   do_snapshot no_str fs_empty [] ''t'' ''2024-01-01'' (Inr [pair_P1]) =
     (fs_empty, [], Inl FileNotFoundError) \<and>
   ensure_dir fs_data_is_file ''data'' = Inl FileExistsError \<and>
   do_snapshot no_str fs_data_is_file ''data'' ''t'' ''2024-01-01'' (Inr [pair_P1]) =
     (fs_data_is_file, [], Inl FileExistsError)"
proof -
  note t = directory_ensured_by_do_snapshot
  have p: "fst csv_example \<noteq> []" by (simp add: csv_example_def)
  have d: "\<not> isdir fs_empty (fst csv_example)"
    by (simp add: isdir_def fs_empty_def)
  have n: "normalize_records [pair_P1] ''t'' \<noteq> []"
    by (simp add: normalize_records_def)
  have r: "read_existing_keys fs_empty csv_example = Inr {}"
    by (simp add: read_existing_keys_def fs_empty_def)
  have l: "dedup_loop {} [] (normalize_records [pair_P1] ''t'') =
             Inr (normalize_records [pair_P1] ''t'')"
    by (simp add: normalize_records_def Let_def row_key_normalize_record pair_P1_def
        dict_get_Cons set_key_def)
  have o: "obstacles fs_empty (fst csv_example) = None" by (simp add: fs_empty_def)
  have "fst csv_example \<noteq> [] \<and> \<not> isdir fs_empty (fst csv_example) \<and>
      normalize_records [pair_P1] ''t'' \<noteq> [] \<and>
      read_existing_keys fs_empty csv_example = Inr {} \<and>
      dedup_loop {} [] (normalize_records [pair_P1] ''t'') = Inr (normalize_records [pair_P1] ''t'')"
    using p d n r l by simp
  with t [of no_str fs_empty csv_example "normalize_records [pair_P1] ''t''"]
  have "write_rows no_str fs_empty csv_example (normalize_records [pair_P1] ''t'') =
          (fs_empty, Inl (if obstacles fs_empty (fst csv_example) = None then FileNotFoundError
                          else NotADirectoryError))"
    by blast
  with o have w: "write_rows no_str fs_empty csv_example (normalize_records [pair_P1] ''t'') =
             (fs_empty, Inl FileNotFoundError)"
    by simp
  note t1 = t [of no_str fs_empty csv_example "[]" "''data''" "''2024-01-01''" "[pair_P1]" "''t''"]
  from t1 ensure_dir_data
  have i: "isdir fs_data (fst (daily_csv_path ''data'' ''2024-01-01''))"
    and s: "snd (snd (do_snapshot no_str fs_empty ''data'' ''t'' ''2024-01-01'' (Inr [pair_P1]))) =
            snd (write_rows no_str fs_data (daily_csv_path ''data'' ''2024-01-01'')
                  (normalize_records [pair_P1] ''t''))"
    by blast+
  from s first_write_P1_added
  have s1: "snd (snd (do_snapshot no_str fs_empty ''data'' ''t'' ''2024-01-01'' (Inr [pair_P1]))) = Inr 1"
    by simp
  note t2 = t [of no_str fs_empty csv_example "[]" "[]" "''2024-01-01''" "[pair_P1]" "''t''"]
  from t2 have e0: "ensure_dir fs_empty [] = Inl FileNotFoundError" by blast
  with t2 have d0: "do_snapshot no_str fs_empty [] ''t'' ''2024-01-01'' (Inr [pair_P1]) =
     (fs_empty, [], Inl FileNotFoundError)"
    by blast
  have ef: "ensure_dir fs_data_is_file ''data'' = Inl FileExistsError"
    by (simp add: ensure_dir_def makedirs_def isdir_def fs_data_is_file_def)
  with t [of no_str fs_data_is_file csv_example "[]" "''data''" "''2024-01-01''" "[pair_P1]" "''t''"]
  have df: "do_snapshot no_str fs_data_is_file ''data'' ''t'' ''2024-01-01'' (Inr [pair_P1]) =
     (fs_data_is_file, [], Inl FileExistsError)"
    by blast
  from p d n r l w ensure_dir_data i s1 e0 d0 ef df show ?thesis by blast
qed

subsection \<open>Reading the keys of a partition file\<close>

lemma map_of_rev_distinct: "distinct (map fst xs) \<Longrightarrow> map_of (rev xs) = map_of xs"
proof (induction xs)
  case Nil
  show ?case by simp
next
  case (Cons x xs)
  obtain k v where x: "x = (k, v)" by (cases x)
  with Cons have k: "map_of xs k = None" and ih: "map_of (rev xs) = map_of xs"
    by (auto simp: map_of_eq_None_iff)
  show ?case
  proof
    fix a
    show "map_of (rev (x # xs)) a = map_of (x # xs) a"
      using x k ih by (auto simp: map_add_def split: option.splits)
  qed
qed

lemma dict_row_full:
  assumes "length row = length names" "distinct names" "i < length names"
  shows "row_get (dict_row names row) (names ! i) = JStr (row ! i)"
proof -
  have "map fst (zip names (map Some row)) = names"
    using assms(1) by (simp add: map_fst_zip)
  with assms(2) have "map_of (rev (zip names (map Some row))) = map_of (zip names (map Some row))"
    by (simp add: map_of_rev_distinct)
  moreover have "map_of (zip names (map Some row)) (names ! i) = Some (map Some row ! i)"
    using assms by (intro map_of_zip_nth) simp_all
  ultimately show ?thesis
    using assms by (simp add: dict_row_def row_get_def)
qed

lemma fieldnames_nth: "fieldnames ! 0 = ''snapshot_ts''" "fieldnames ! Suc 0 = ''pairAddress''"
  by (simp_all add: fieldnames_def)

lemma dict_row_key:
  assumes "length row = 30"
  shows "(row_get (dict_row fieldnames row) ''pairAddress'',
          row_get (dict_row fieldnames row) ''snapshot_ts'') = (JStr (row ! 1), JStr (row ! 0))"
  using dict_row_full [of row fieldnames 0] dict_row_full [of row fieldnames 1] assms
  by (simp add: fieldnames_length fieldnames_distinct fieldnames_nth)

lemma read_records_rows:
  assumes "\<forall>r \<in> set rows. \<forall>f \<in> set r. length f \<le> field_limit"
  shows "read_records (concat (map csv_writerow rows)) = Inr rows"
proof -
  from assms have "\<not> (\<exists>r \<in> set rows. \<exists>f \<in> set r. field_limit < length f)"
    by (meson not_le)
  then show ?thesis
    by (simp only: read_records_eq csv_reader_rows if_False)
qed

lemma read_records_rows_open:
  assumes "r \<noteq> []" "\<forall>r \<in> set (rows @ [r]). \<forall>f \<in> set r. length f \<le> field_limit"
  shows "read_records (concat (map csv_writerow rows) @ csv_line r) = Inr (rows @ [r])"
proof -
  from assms(2) have "\<not> (\<exists>r \<in> set (rows @ [r]). \<exists>f \<in> set r. field_limit < length f)"
    by (meson not_le)
  then show ?thesis
    by (simp only: read_records_eq csv_reader_rows_open [OF assms(1)] if_False)
qed

lemma read_records_long:
  assumes "\<exists>r \<in> set rows. \<exists>f \<in> set r. field_limit < length f"
  shows "read_records (concat (map csv_writerow rows)) = Inl CsvError"
  using assms by (simp only: read_records_eq csv_reader_rows if_True)

lemma DictReader_rows:
  assumes "\<forall>r \<in> set (names # rows). \<forall>f \<in> set r. length f \<le> field_limit"
  shows "DictReader (concat (map csv_writerow (names # rows))) =
           Inr (map (dict_row names) (filter (\<lambda>row. row \<noteq> []) rows))"
  unfolding DictReader_def read_records_rows [OF assms] by simp

lemma DictReader_rows_open:
  assumes "r \<noteq> []" "\<forall>r \<in> set (names # rows @ [r]). \<forall>f \<in> set r. length f \<le> field_limit"
  shows "DictReader (concat (map csv_writerow (names # rows)) @ csv_line r) =
           Inr (map (dict_row names) (filter (\<lambda>row. row \<noteq> []) (rows @ [r])))"
proof -
  from assms(2) have "\<forall>r \<in> set ((names # rows) @ [r]). \<forall>f \<in> set r. length f \<le> field_limit"
    by simp
  from read_records_rows_open [OF assms(1) this] show ?thesis
    unfolding DictReader_def by simp
qed

lemma DictReader_header_open:
  assumes "names \<noteq> []" "\<forall>f \<in> set names. length f \<le> field_limit"
  shows "DictReader (csv_line names) = Inr []"
proof -
  from assms(2) have "\<forall>r \<in> set ([] @ [names]). \<forall>f \<in> set r. length f \<le> field_limit"
    by simp
  from read_records_rows_open [OF assms(1) this] show ?thesis
    unfolding DictReader_def by simp
qed

lemma DictReader_long:
  assumes "\<exists>r \<in> set rows. \<exists>f \<in> set r. field_limit < length f"
  shows "DictReader (concat (map csv_writerow rows)) = Inl CsvError"
  unfolding DictReader_def read_records_long [OF assms] by simp

lemma fieldnames_short: "\<forall>f \<in> set fieldnames. length f \<le> field_limit"
  by (simp add: fieldnames_def field_limit_def)

lemma keys_of_rows:
  assumes "\<forall>row \<in> set rows. length row = 30"
  shows "keys_of_dicts (map (dict_row fieldnames) (filter (\<lambda>row. row \<noteq> []) rows)) =
         (\<lambda>row. (JStr (row ! 1), JStr (row ! 0))) ` set rows"
proof -
  from assms have "filter (\<lambda>row. row \<noteq> []) rows = rows"
    by (auto simp: filter_id_conv)
  moreover have "\<And>row. row \<in> set rows \<Longrightarrow>
      (row_get (dict_row fieldnames row) ''pairAddress'',
       row_get (dict_row fieldnames row) ''snapshot_ts'') = (JStr (row ! 1), JStr (row ! 0))"
    using assms dict_row_key by blast
  ultimately show ?thesis by (auto simp: keys_of_dicts_def image_iff)
qed

text \<open>
  What \<open>read_existing_keys\<close> returns on a partition file, the header followed by rows
  of thirty cells none of which is longer than the field limit: the pairs of the rows'
  \<open>pairAddress\<close> cell and \<open>snapshot_ts\<close> cell (the second and the first column), as
  strings; the same when the last row has no line end; the empty set when the file does
  not exist or holds the header only. Its namesake in the script returns the same on
  every file. When a cell is longer than the limit, the reader raises.
\<close>

lemma read_existing_rows_indexed_eq:
  "read_existing_rows_indexed s csv_path = read_existing_keys s csv_path"
  by (simp add: read_existing_rows_indexed_def read_existing_keys_def DictReader_def
      read_records_def keys_of_dicts_def split: option.splits)

lemma read_existing_keys_header:
  "files s csv_path = Some (csv_writerow fieldnames) \<Longrightarrow> read_existing_keys s csv_path = Inr {}"
  "files s csv_path = Some (csv_line fieldnames) \<Longrightarrow> read_existing_keys s csv_path = Inr {}"
proof -
  have a: "\<forall>r \<in> set (fieldnames # []). \<forall>f \<in> set r. length f \<le> field_limit"
    using fieldnames_short by simp
  assume "files s csv_path = Some (csv_writerow fieldnames)"
  then show "read_existing_keys s csv_path = Inr {}"
    using DictReader_rows [OF a] by (simp add: read_existing_keys_def keys_of_dicts_def)
next
  have "fieldnames \<noteq> []" by (simp add: fieldnames_def)
  then have "DictReader (csv_line fieldnames) = Inr []"
    using fieldnames_short by (rule DictReader_header_open)
  moreover assume "files s csv_path = Some (csv_line fieldnames)"
  ultimately show "read_existing_keys s csv_path = Inr {}"
    by (simp add: read_existing_keys_def keys_of_dicts_def)
qed

lemma read_existing_keys_partition:
  assumes "\<forall>row \<in> set rows. length row = 30 \<and> (\<forall>f \<in> set row. length f \<le> field_limit)"
    and "files s csv_path = Some (concat (map csv_writerow (fieldnames # rows)))"
  shows "read_existing_keys s csv_path = Inr ((\<lambda>row. (JStr (row ! 1), JStr (row ! 0))) ` set rows)"
proof -
  from assms(1) fieldnames_short
  have "\<forall>r \<in> set (fieldnames # rows). \<forall>f \<in> set r. length f \<le> field_limit"
    by simp
  from DictReader_rows [OF this] assms(2)
  have "read_existing_keys s csv_path =
      Inr (keys_of_dicts (map (dict_row fieldnames) (filter (\<lambda>row. row \<noteq> []) rows)))"
    by (simp add: read_existing_keys_def)
  moreover from assms(1) have "\<forall>row \<in> set rows. length row = 30" by simp
  ultimately show ?thesis using keys_of_rows [of rows] by simp
qed

lemma read_existing_keys_partition_open:
  assumes "\<forall>row \<in> set (rows @ [last_row]).
             length row = 30 \<and> (\<forall>f \<in> set row. length f \<le> field_limit)"
    and "files s csv_path =
           Some (concat (map csv_writerow (fieldnames # rows)) @ csv_line last_row)"
  shows "read_existing_keys s csv_path =
           Inr ((\<lambda>row. (JStr (row ! 1), JStr (row ! 0))) ` set (rows @ [last_row]))"
proof -
  from assms(1) have ne: "last_row \<noteq> []" by auto
  from assms(1) fieldnames_short
  have "\<forall>r \<in> set (fieldnames # rows @ [last_row]). \<forall>f \<in> set r. length f \<le> field_limit"
    by simp
  from DictReader_rows_open [OF ne this] assms(2)
  have "read_existing_keys s csv_path =
      Inr (keys_of_dicts (map (dict_row fieldnames)
             (filter (\<lambda>row. row \<noteq> []) (rows @ [last_row]))))"
    by (simp add: read_existing_keys_def)
  moreover from assms(1) have "\<forall>row \<in> set (rows @ [last_row]). length row = 30" by simp
  ultimately show ?thesis using keys_of_rows [of "rows @ [last_row]"] by simp
qed

lemma read_existing_keys_long:
  assumes "\<exists>row \<in> set rows. \<exists>f \<in> set row. field_limit < length f"
    and "files s csv_path = Some (concat (map csv_writerow (fieldnames # rows)))"
  shows "read_existing_keys s csv_path = Inl CsvError"
proof -
  from assms(1) have "\<exists>r \<in> set (fieldnames # rows). \<exists>f \<in> set r. field_limit < length f"
    by auto
  from DictReader_long [OF this] assms(2) show ?thesis
    by (simp add: read_existing_keys_def)
qed

subsection \<open>The filter of \<open>write_rows\<close>\<close>

lemma dedup_loop_result:
  "dedup_loop existing acc rows = Inr deduped \<Longrightarrow>
   \<exists>new. deduped = acc @ new \<and> subseq new rows \<and> distinct (map (\<lambda>r. set_key (row_key r)) new) \<and>
         (\<forall>r \<in> set new. set_key (row_key r) \<notin> existing)"
proof (induction existing acc rows arbitrary: deduped rule: dedup_loop.induct)
  case (1 existing acc)
  then show ?case by simp
next
  case (2 existing acc r rows)
  let ?k = "set_key (row_key r)"
  from "2.prems" have h: "hashable (fst (row_key r)) \<and> hashable (snd (row_key r))"
    by (auto simp: Let_def split: if_splits)
  show ?case
  proof (cases "?k \<in> existing")
    case True
    with "2.prems" h have "dedup_loop existing acc rows = Inr deduped"
      by (simp add: Let_def)
    with "2.IH"(2) [OF refl _ _ this] h True
    obtain new where "deduped = acc @ new" "subseq new rows"
      "distinct (map (\<lambda>r. set_key (row_key r)) new)" "\<forall>r \<in> set new. set_key (row_key r) \<notin> existing"
      by auto
    then show ?thesis by (auto intro: subseq_Cons')
  next
    case False
    with "2.prems" h have "dedup_loop (insert ?k existing) (acc @ [r]) rows = Inr deduped"
      by (simp add: Let_def)
    with "2.IH"(1) [OF refl _ _ this] h False
    obtain new where n: "deduped = (acc @ [r]) @ new" "subseq new rows"
      "distinct (map (\<lambda>r. set_key (row_key r)) new)"
      "\<forall>r' \<in> set new. set_key (row_key r') \<notin> insert ?k existing"
      by auto
    have "deduped = acc @ (r # new)" using n(1) by simp
    moreover have "subseq (r # new) (r # rows)" using n(2) by simp
    moreover have "distinct (map (\<lambda>r. set_key (row_key r)) (r # new))"
      using n(3,4) by auto
    moreover have "\<forall>r' \<in> set (r # new). set_key (row_key r') \<notin> existing"
      using n(4) False by auto
    ultimately show ?thesis by blast
  qed
qed

lemma distinct_filter_le_one:
  "distinct (map f xs) \<Longrightarrow> \<forall>x \<in> set xs. P x \<longrightarrow> f x = k \<Longrightarrow> length (filter P xs) \<le> 1"
proof (induction xs)
  case Nil
  show ?case by simp
next
  case (Cons x xs)
  show ?case
  proof (cases "P x")
    case False
    with Cons show ?thesis by simp
  next
    case True
    with Cons.prems have "f x = k" by simp
    have "\<forall>y \<in> set xs. \<not> P y"
    proof
      fix y assume y: "y \<in> set xs"
      show "\<not> P y"
      proof
        assume "P y"
        with Cons.prems(2) y have "f y = k" by simp
        with \<open>f x = k\<close> y have "f x \<in> f ` set xs" by (metis imageI)
        with Cons.prems(1) show False by simp
      qed
    qed
    then have "filter P xs = []" by (simp add: filter_empty_conv)
    with True show ?thesis by simp
  qed
qed

lemma write_rows_result:
  assumes "write_rows py_str s csv_path rows = (s', Inr n)"
  shows "\<exists>deduped.
           (rows = [] \<or>
            (\<exists>existing. read_existing_keys s csv_path = Inr existing \<and>
               dedup_loop existing [] rows = Inr deduped \<and>
               (\<forall>r \<in> set deduped. set_key (row_key r) \<notin> existing))) \<and>
           (rows = [] \<longrightarrow> deduped = []) \<and>
           length deduped = n \<and> subseq deduped rows \<and>
           distinct (map (\<lambda>r. set_key (row_key r)) deduped) \<and>
           (\<forall>r \<in> set deduped. \<not> wrong_fields r) \<and>
           (if deduped = [] then s' = s
            else s' = s\<lparr>files := (files s)(csv_path \<mapsto>
                   old_text s csv_path @ header_if_new s csv_path @
                   concat (map (row_line py_str) deduped))\<rparr>)"
proof (cases "rows = []")
  case True
  with assms show ?thesis by (auto simp: write_rows_def)
next
  case False
  show ?thesis
  proof (cases "read_existing_keys s csv_path")
    case (Inl e)
    with assms False show ?thesis by (simp add: write_rows_def Let_def)
  next
    case existing: (Inr existing)
    show ?thesis
    proof (cases "dedup_loop existing [] rows")
      case (Inl e)
      with assms False existing show ?thesis by (simp add: write_rows_def Let_def)
    next
      case (Inr deduped)
      from dedup_loop_result [OF Inr]
      have d: "subseq deduped rows" "distinct (map (\<lambda>r. set_key (row_key r)) deduped)"
        "\<forall>r \<in> set deduped. set_key (row_key r) \<notin> existing"
        by auto
      show ?thesis
      proof (cases "deduped = []")
        case True
        with assms False Inr existing have "s' = s" "n = 0"
          by (auto simp: write_rows_def Let_def)
        with True False Inr existing show ?thesis by auto
      next
        case ne: False
        from assms False Inr existing ne have o: "open_append_error s csv_path = None"
          by (auto simp: write_rows_def Let_def split: option.splits)
        from assms False Inr existing ne o have w: "snd (writerows py_str deduped) = None"
          and n: "n = length deduped"
          and s': "s' = s\<lparr>files := (files s)(csv_path \<mapsto>
                     old_text s csv_path @ header_if_new s csv_path @
                     fst (writerows py_str deduped))\<rparr>"
          by (auto simp: write_rows_def Let_def old_text_def header_if_new_def split: option.splits)
        have ok: "\<forall>r \<in> set deduped. \<not> wrong_fields r"
          using w by (induction deduped) (auto split: if_splits prod.splits)
        then have "takeWhile (\<lambda>r. \<not> wrong_fields r) deduped = deduped"
          by (simp add: takeWhile_eq_all_conv)
        with s' have "s' = s\<lparr>files := (files s)(csv_path \<mapsto>
                     old_text s csv_path @ header_if_new s csv_path @
                     concat (map (row_line py_str) deduped))\<rparr>"
          by (simp add: writerows_text)
        with d ok n ne Inr existing False show ?thesis by auto
      qed
    qed
  qed
qed

text \<open>
  C10. Rows without a \<open>pairAddress\<close> (absent or \<^verbatim>\<open>None\<close>) and with the same
  \<open>snapshot_ts\<close> have the same key. So of the rows that one successful call of
  \<open>write_rows\<close> appends (\<open>deduped\<close>, a subsequence of the candidates, whose lines are
  the text added to the file), at most one per timestamp lacks a \<open>pairAddress\<close>,
  whatever the other columns hold.
\<close>

theorem one_row_without_pairAddress:
  "(dict_get r1 ''pairAddress'' = JNull \<and> dict_get r2 ''pairAddress'' = JNull \<and>
    dict_get r1 ''snapshot_ts'' = dict_get r2 ''snapshot_ts'' \<longrightarrow> row_key r1 = row_key r2) \<and>
   (\<forall>s' n. write_rows py_str s csv_path rows = (s', Inr n) \<longrightarrow>
      (\<exists>deduped. length deduped = n \<and> subseq deduped rows \<and>
         (if deduped = [] then s' = s
          else s' = s\<lparr>files := (files s)(csv_path \<mapsto>
                 old_text s csv_path @ header_if_new s csv_path @
                 concat (map (row_line py_str) deduped))\<rparr>) \<and>
         (\<forall>ts. length (filter (\<lambda>r. dict_get r ''pairAddress'' = JNull \<and>
                                   py_key (dict_get r ''snapshot_ts'') = py_key ts) deduped) \<le> 1)))"
proof (intro conjI allI impI)
  assume "dict_get r1 ''pairAddress'' = JNull \<and> dict_get r2 ''pairAddress'' = JNull \<and>
          dict_get r1 ''snapshot_ts'' = dict_get r2 ''snapshot_ts''"
  then show "row_key r1 = row_key r2" by (simp add: row_key_def)
next
  fix s' n
  assume "write_rows py_str s csv_path rows = (s', Inr n)"
  from write_rows_result [OF this]
  obtain deduped where d: "length deduped = n" "subseq deduped rows"
    "distinct (map (\<lambda>r. set_key (row_key r)) deduped)"
    "if deduped = [] then s' = s
     else s' = s\<lparr>files := (files s)(csv_path \<mapsto>
            old_text s csv_path @ header_if_new s csv_path @
            concat (map (row_line py_str) deduped))\<rparr>"
    by blast
  have "\<forall>ts. length (filter (\<lambda>r. dict_get r ''pairAddress'' = JNull \<and>
                 py_key (dict_get r ''snapshot_ts'') = py_key ts) deduped) \<le> 1"
  proof
    fix ts
    show "length (filter (\<lambda>r. dict_get r ''pairAddress'' = JNull \<and>
                 py_key (dict_get r ''snapshot_ts'') = py_key ts) deduped) \<le> 1"
      using d(3)
      by (rule distinct_filter_le_one [where k = "(JNull, py_key ts)"])
         (simp add: set_key_def row_key_def)
  qed
  with d show "\<exists>deduped. length deduped = n \<and> subseq deduped rows \<and>
         (if deduped = [] then s' = s
          else s' = s\<lparr>files := (files s)(csv_path \<mapsto>
                 old_text s csv_path @ header_if_new s csv_path @
                 concat (map (row_line py_str) deduped))\<rparr>) \<and>
         (\<forall>ts. length (filter (\<lambda>r. dict_get r ''pairAddress'' = JNull \<and>
                                   py_key (dict_get r ''snapshot_ts'') = py_key ts) deduped) \<le> 1)"
    by blast
qed

lemma dedup_loop_no_address:
  "dedup_loop {} [] (normalize_records pairs_no_address ts_example) =
     Inr [normalize_record [(''chainId'', JStr ''solana'')] ts_example]"
  by (simp add: normalize_records_map pairs_no_address_def row_key_normalize_record
      dict_get_Cons dict_get_Nil set_key_def Let_def)

lemma write_rows_effect:
  assumes "read_existing_keys s csv_path = Inr existing"
    and "dedup_loop existing [] rows = Inr deduped"
    and "deduped \<noteq> []" and "open_append_error s csv_path = None"
    and "\<forall>r \<in> set deduped. \<not> wrong_fields r"
  shows "write_rows py_str s csv_path rows =
           (s\<lparr>files := (files s)(csv_path \<mapsto>
                old_text s csv_path @ header_if_new s csv_path @
                concat (map (row_line py_str) deduped))\<rparr>, Inr (length deduped))"
proof -
  from assms(2,3) have ne: "rows \<noteq> []" by auto
  from assms(5) have t: "takeWhile (\<lambda>r. \<not> wrong_fields r) deduped = deduped"
    by (simp add: takeWhile_eq_all_conv)
  from assms(5) have e: "snd (writerows py_str deduped) = None"
    by (induction deduped) (auto split: prod.splits)
  have f: "fst (writerows py_str deduped) = concat (map (row_line py_str) deduped)"
    using writerows_text [of py_str deduped] t by simp
  from ne assms(1,2,3,4) e f show ?thesis
    by (simp add: write_rows_def Let_def old_text_def header_if_new_def)
qed

lemma write_rows_nothing_new:
  assumes "read_existing_keys s csv_path = Inr existing"
    and "dedup_loop existing [] rows = Inr []"
  shows "write_rows py_str s csv_path rows = (s, Inr 0)"
  using assms by (simp add: write_rows_def Let_def)

lemma open_fs_data: "open_append_error fs_data csv_example = None"
  by (simp add: open_append_error_def fs_data_def isdir_def csv_example_def)

lemma write_no_address:
  "write_rows no_str fs_data csv_example (normalize_records pairs_no_address ts_example) =
     (fs_with (table_text no_str [normalize_record [(''chainId'', JStr ''solana'')] ts_example]), Inr 1)"
proof -
  have a: "files fs_data csv_example = None" by (simp add: fs_data_def)
  have "write_rows no_str fs_data csv_example (normalize_records pairs_no_address ts_example) =
     (fs_data\<lparr>files := (files fs_data)(csv_example \<mapsto>
        old_text fs_data csv_example @ header_if_new fs_data csv_example @
        concat (map (row_line no_str) [normalize_record [(''chainId'', JStr ''solana'')] ts_example]))\<rparr>,
      Inr (length [normalize_record [(''chainId'', JStr ''solana'')] ts_example]))"
    using read_existing_keys_absent [OF a] dedup_loop_no_address _ open_fs_data
    by (rule write_rows_effect) (simp_all add: wrong_fields_normalize_record)
  then show ?thesis
    by (simp add: fs_with_def fs_data_def old_text_def header_if_new_def isfile_def table_text_def)
qed

theorem one_row_without_pairAddress_witness:
  "dict_get (normalize_record [(''chainId'', JStr ''solana'')] ts_example) ''pairAddress'' = JNull \<and>
   dict_get (normalize_record [(''chainId'', JStr ''base'')] ts_example) ''pairAddress'' = JNull \<and>
   row_key (normalize_record [(''chainId'', JStr ''solana'')] ts_example) =
     row_key (normalize_record [(''chainId'', JStr ''base'')] ts_example) \<and>
   write_rows no_str fs_data csv_example (normalize_records pairs_no_address ts_example) =
     (fs_with (table_text no_str [normalize_record [(''chainId'', JStr ''solana'')] ts_example]), Inr 1) \<and>
   (\<exists>deduped. length deduped = 1 \<and>
      subseq deduped (normalize_records pairs_no_address ts_example) \<and>
      (\<forall>ts. length (filter (\<lambda>r. dict_get r ''pairAddress'' = JNull \<and>
                                py_key (dict_get r ''snapshot_ts'') = py_key ts) deduped) \<le> 1))"
proof -
  let ?r1 = "normalize_record [(''chainId'', JStr ''solana'')] ts_example"
  let ?r2 = "normalize_record [(''chainId'', JStr ''base'')] ts_example"
  have a: "dict_get ?r1 ''pairAddress'' = JNull" "dict_get ?r2 ''pairAddress'' = JNull"
    "dict_get ?r1 ''snapshot_ts'' = dict_get ?r2 ''snapshot_ts''"
    by (simp_all add: normalize_record_def dict_get_Cons dict_get_Nil)
  note t = one_row_without_pairAddress [of ?r1 ?r2 no_str fs_data csv_example
      "normalize_records pairs_no_address ts_example"]
  from t a have k: "row_key ?r1 = row_key ?r2" by blast
  from t write_no_address
  have "\<exists>deduped. length deduped = 1 \<and>
      subseq deduped (normalize_records pairs_no_address ts_example) \<and>
      (\<forall>ts. length (filter (\<lambda>r. dict_get r ''pairAddress'' = JNull \<and>
                                py_key (dict_get r ''snapshot_ts'') = py_key ts) deduped) \<le> 1)"
    by blast
  with a k write_no_address show ?thesis by blast
qed

subsection \<open>The text of the partition file\<close>

lemma row_cells_length: "length (row_cells py_str r) = 30"
  by (simp add: row_cells_def dict_to_list_def fieldnames_length)

lemma cell_text_restval:
  "cell_text py_str (case map_of r key of None \<Rightarrow> JStr [] | Some v \<Rightarrow> v) =
   cell_text py_str (dict_get r key)"
  by (simp add: dict_get_def split: option.splits)

lemma row_cells_key:
  "row_cells py_str r ! Suc 0 = cell_text py_str (dict_get r ''pairAddress'')"
  "row_cells py_str r ! 0 = cell_text py_str (dict_get r ''snapshot_ts'')"
proof -
  have "row_cells py_str r ! Suc 0 = cell_text py_str (dict_get r (fieldnames ! Suc 0))"
    "row_cells py_str r ! 0 = cell_text py_str (dict_get r (fieldnames ! 0))"
    by (simp_all add: row_cells_def dict_to_list_def fieldnames_length cell_text_restval)
  then show "row_cells py_str r ! Suc 0 = cell_text py_str (dict_get r ''pairAddress'')"
    "row_cells py_str r ! 0 = cell_text py_str (dict_get r ''snapshot_ts'')"
    by (simp_all add: fieldnames_nth)
qed

lemma table_text_rows:
  "table_text py_str rs = concat (map csv_writerow (fieldnames # map (row_cells py_str) rs))"
proof -
  have "row_line py_str = (\<lambda>r. csv_writerow (row_cells py_str r))"
    by (rule ext) (simp add: row_line_def)
  then show ?thesis by (simp add: table_text_def comp_def)
qed

lemma csv_reader_table: "csv_reader (table_text py_str rs) = fieldnames # map (row_cells py_str) rs"
  unfolding table_text_rows by (rule csv_reader_rows)

lemma table_text_append:
  "table_text py_str rs @ concat (map (row_line py_str) rs') = table_text py_str (rs @ rs')"
  by (simp add: table_text_def)

lemma read_existing_keys_table:
  assumes "files s csv_path = Some (table_text py_str rs)"
    and "\<forall>r \<in> set rs. \<forall>f \<in> set (row_cells py_str r). length f \<le> field_limit"
  shows "read_existing_keys s csv_path = Inr (disk_key py_str ` set rs)"
proof -
  from assms(2) fieldnames_short
  have "\<forall>r \<in> set (fieldnames # map (row_cells py_str) rs). \<forall>f \<in> set r. length f \<le> field_limit"
    by simp
  from DictReader_rows [OF this] assms(1)
  have "read_existing_keys s csv_path =
      Inr (keys_of_dicts (map (dict_row fieldnames)
             (filter (\<lambda>row. row \<noteq> []) (map (row_cells py_str) rs))))"
    by (simp add: read_existing_keys_def table_text_rows)
  also have "keys_of_dicts (map (dict_row fieldnames)
             (filter (\<lambda>row. row \<noteq> []) (map (row_cells py_str) rs))) =
      (\<lambda>row. (JStr (row ! 1), JStr (row ! 0))) ` set (map (row_cells py_str) rs)"
    by (rule keys_of_rows) (simp add: row_cells_length)
  also have "\<dots> = disk_key py_str ` set rs"
    using row_cells_key [of py_str] by (simp add: image_image disk_key_def)
  finally show ?thesis .
qed

lemma read_existing_keys_table_long:
  assumes "files s csv_path = Some (table_text py_str rs)"
    and "\<exists>r \<in> set rs. \<exists>f \<in> set (row_cells py_str r). field_limit < length f"
  shows "read_existing_keys s csv_path = Inl CsvError"
proof -
  from assms(2)
  have "\<exists>r \<in> set (fieldnames # map (row_cells py_str) rs). \<exists>f \<in> set r. field_limit < length f"
    by auto
  from DictReader_long [OF this] assms(1) show ?thesis
    by (simp add: read_existing_keys_def table_text_rows)
qed

lemma subseq_set: "subseq xs ys \<Longrightarrow> set xs \<subseteq> set ys"
  by (metis set_nths_subset subseq_conv_nths)

lemma write_rows_file:
  "files (fst (write_rows py_str s csv_path rows)) csv_path = files s csv_path \<or>
   (\<exists>rs. set rs \<subseteq> set rows \<and>
      files (fst (write_rows py_str s csv_path rows)) csv_path =
        Some (old_text s csv_path @ header_if_new s csv_path @ concat (map (row_line py_str) rs)))"
proof (cases "read_existing_keys s csv_path")
  case (Inl e)
  then show ?thesis by (simp add: write_rows_def Let_def)
next
  case existing: (Inr existing)
  show ?thesis
  proof (cases "dedup_loop existing [] rows")
    case (Inl e)
    with existing show ?thesis by (simp add: write_rows_def Let_def)
  next
    case (Inr deduped)
    from dedup_loop_result [OF Inr] have "subseq deduped rows" by auto
    then have "set deduped \<subseteq> set rows" by (rule subseq_set)
    moreover have "set (takeWhile (\<lambda>r. \<not> wrong_fields r) deduped) \<subseteq> set deduped"
      by (rule set_takeWhileD [THEN conjunct1, THEN subsetI])
    ultimately have sub: "set (takeWhile (\<lambda>r. \<not> wrong_fields r) deduped) \<subseteq> set rows"
      by simp
    show ?thesis
    proof (cases "rows = [] \<or> deduped = [] \<or> open_append_error s csv_path \<noteq> None")
      case True
      with Inr existing show ?thesis by (auto simp: write_rows_def Let_def)
    next
      case False
      with Inr existing have "files (fst (write_rows py_str s csv_path rows)) csv_path =
          Some (old_text s csv_path @ header_if_new s csv_path @
                concat (map (row_line py_str) (takeWhile (\<lambda>r. \<not> wrong_fields r) deduped)))"
        by (simp add: write_rows_def Let_def old_text_def header_if_new_def writerows_text)
      with sub show ?thesis by blast
    qed
  qed
qed

lemma write_rows_extends:
  assumes "files s csv_path = Some old"
  shows "\<exists>new. files (fst (write_rows py_str s csv_path rows)) csv_path = Some (old @ new)"
  using write_rows_file [of py_str s csv_path rows] assms
  by (auto simp: old_text_def)

lemma append_all_extends:
  "files s csv_path = Some old \<Longrightarrow>
   \<exists>new. files (append_all py_str s csv_path batches) csv_path = Some (old @ new)"
proof (induction batches arbitrary: s old)
  case Nil
  then show ?case by simp
next
  case (Cons rows batches)
  from write_rows_extends [OF Cons.prems, of py_str rows]
  obtain new1 where "files (fst (write_rows py_str s csv_path rows)) csv_path = Some (old @ new1)"
    by blast
  from Cons.IH [OF this] show ?case by auto
qed

lemma write_rows_table:
  assumes "files s csv_path = None \<or>
           (\<exists>rs. set rs \<subseteq> S \<and> files s csv_path = Some (table_text py_str rs))"
  shows "files (fst (write_rows py_str s csv_path rows)) csv_path = None \<or>
         (\<exists>rs. set rs \<subseteq> S \<union> set rows \<and>
            files (fst (write_rows py_str s csv_path rows)) csv_path = Some (table_text py_str rs))"
proof -
  let ?s' = "fst (write_rows py_str s csv_path rows)"
  from write_rows_file [of py_str s csv_path rows]
  consider "files ?s' csv_path = files s csv_path"
    | rs where "set rs \<subseteq> set rows"
        "files ?s' csv_path =
           Some (old_text s csv_path @ header_if_new s csv_path @ concat (map (row_line py_str) rs))"
    by blast
  then show ?thesis
  proof cases
    case 1
    with assms show ?thesis by auto
  next
    case (2 rs)
    from assms show ?thesis
    proof
      assume "files s csv_path = None"
      with 2 have "files ?s' csv_path = Some (table_text py_str rs)"
        by (simp add: old_text_def header_if_new_def isfile_def table_text_def)
      with 2(1) show ?thesis by blast
    next
      assume "\<exists>rs. set rs \<subseteq> S \<and> files s csv_path = Some (table_text py_str rs)"
      then obtain rs0 where r0: "set rs0 \<subseteq> S" "files s csv_path = Some (table_text py_str rs0)"
        by blast
      with 2 have "files ?s' csv_path = Some (table_text py_str (rs0 @ rs))"
        by (simp add: old_text_def header_if_new_def isfile_def table_text_append)
      moreover from r0 2(1) have "set (rs0 @ rs) \<subseteq> S \<union> set rows" by auto
      ultimately show ?thesis by blast
    qed
  qed
qed

lemma append_all_table:
  "files s csv_path = None \<or>
     (\<exists>rs. set rs \<subseteq> S \<and> files s csv_path = Some (table_text py_str rs)) \<Longrightarrow>
   files (append_all py_str s csv_path batches) csv_path = None \<or>
     (\<exists>rs. set rs \<subseteq> S \<union> set (concat batches) \<and>
        files (append_all py_str s csv_path batches) csv_path = Some (table_text py_str rs))"
proof (induction batches arbitrary: s S)
  case Nil
  then show ?case by simp
next
  case (Cons rows batches)
  from Cons.IH [OF write_rows_table [OF Cons.prems, of rows]]
  show ?case by (simp add: Un_assoc)
qed

text \<open>
  C5. Started on a path where no file exists, any sequence of \<open>write_rows\<close> calls
  (whatever each returns or raises) leaves either no file or a file that is the header
  line followed only by lines of rows taken from the batches: the header is written once,
  at the top, and \<open>csv.reader\<close> reads the file back as the header record followed by
  one record per data row (so, unless a candidate row carries the column names as its
  values, exactly one record of the file is the header). And a call never changes what a file already holds: the old
  text is a prefix of the new one, after one call and after any number of calls, so the
  file is never rewritten, shortened or removed.
\<close>

theorem header_once_append_only:
  "(files s csv_path = None \<longrightarrow>
      (case files (append_all py_str s csv_path batches) csv_path of
         None \<Rightarrow> True
       | Some text \<Rightarrow>
           \<exists>rs. set rs \<subseteq> set (concat batches) \<and>
                text = csv_writerow fieldnames @ concat (map (row_line py_str) rs) \<and>
                csv_reader text = fieldnames # map (row_cells py_str) rs \<and>
                ((\<forall>r \<in> set (concat batches). row_cells py_str r \<noteq> fieldnames) \<longrightarrow>
                   count_list (csv_reader text) fieldnames = 1))) \<and>
   (\<forall>old. files s csv_path = Some old \<longrightarrow>
      (\<exists>new. files (fst (write_rows py_str s csv_path rows)) csv_path = Some (old @ new))) \<and>
   (\<forall>old. files s csv_path = Some old \<longrightarrow>
      (\<exists>new. files (append_all py_str s csv_path batches) csv_path = Some (old @ new)))"
proof (intro conjI allI impI)
  assume "files s csv_path = None"
  then have "files s csv_path = None \<or>
     (\<exists>rs. set rs \<subseteq> {} \<and> files s csv_path = Some (table_text py_str rs))"
    by simp
  from append_all_table [OF this, of batches]
  consider "files (append_all py_str s csv_path batches) csv_path = None"
    | rs where "set rs \<subseteq> set (concat batches)"
        "files (append_all py_str s csv_path batches) csv_path = Some (table_text py_str rs)"
    by auto
  then show "case files (append_all py_str s csv_path batches) csv_path of
         None \<Rightarrow> True
       | Some text \<Rightarrow>
           \<exists>rs. set rs \<subseteq> set (concat batches) \<and>
                text = csv_writerow fieldnames @ concat (map (row_line py_str) rs) \<and>
                csv_reader text = fieldnames # map (row_cells py_str) rs \<and>
                ((\<forall>r \<in> set (concat batches). row_cells py_str r \<noteq> fieldnames) \<longrightarrow>
                   count_list (csv_reader text) fieldnames = 1)"
  proof cases
    case 1
    then show ?thesis by simp
  next
    case (2 rs)
    have "table_text py_str rs = csv_writerow fieldnames @ concat (map (row_line py_str) rs)"
      by (simp add: table_text_def)
    moreover have r: "csv_reader (table_text py_str rs) = fieldnames # map (row_cells py_str) rs"
      by (rule csv_reader_table)
    moreover have "(\<forall>r \<in> set (concat batches). row_cells py_str r \<noteq> fieldnames) \<longrightarrow>
        count_list (csv_reader (table_text py_str rs)) fieldnames = 1"
    proof
      assume "\<forall>r \<in> set (concat batches). row_cells py_str r \<noteq> fieldnames"
      with 2(1) have "\<forall>r \<in> set rs. row_cells py_str r \<noteq> fieldnames" by blast
      then have "fieldnames \<notin> set (map (row_cells py_str) rs)" by auto
      then have "count_list (map (row_cells py_str) rs) fieldnames = 0"
        by (simp add: count_list_0_iff)
      with r show "count_list (csv_reader (table_text py_str rs)) fieldnames = 1" by simp
    qed
    ultimately show ?thesis using 2 by (simp del: set_concat) metis
  qed
next
  fix old assume "files s csv_path = Some old"
  then show "\<exists>new. files (fst (write_rows py_str s csv_path rows)) csv_path = Some (old @ new)"
    by (rule write_rows_extends)
next
  fix old assume "files s csv_path = Some old"
  then show "\<exists>new. files (append_all py_str s csv_path batches) csv_path = Some (old @ new)"
    by (rule append_all_extends)
qed

subsection \<open>Appending twice\<close>

lemma disk_key_normalize_record:
  "disk_key py_str (normalize_record p ts) = (JStr (cell_text py_str (dict_get p ''pairAddress'')), JStr ts)"
  by (simp add: disk_key_def normalize_record_def dict_get_Cons)

lemma pairAddress_examples:
  "dict_get pair_P1 ''pairAddress'' = JStr ''P1''" "dict_get pair_P3 ''pairAddress'' = JStr ''P3''"
  by (simp_all add: pair_P1_def pair_P3_def dict_get_Cons)

lemma files_fs_with: "files (fs_with text) csv_example = Some text"
  by (simp add: fs_with_def)

lemma open_fs_with: "open_append_error (fs_with text) csv_example = None"
  by (simp add: open_append_error_def fs_with_def isdir_def csv_example_def)

lemma fs_with_append:
  "(fs_with text)\<lparr>files := (files (fs_with text))(csv_example \<mapsto>
      old_text (fs_with text) csv_example @ header_if_new (fs_with text) csv_example @ added)\<rparr> =
   fs_with (text @ added)"
  by (simp add: fs_with_def old_text_def header_if_new_def isfile_def)

lemma fs_data_create:
  "fs_data\<lparr>files := (files fs_data)(csv_example \<mapsto>
      old_text fs_data csv_example @ header_if_new fs_data csv_example @
      concat (map (row_line py_str) rs))\<rparr> =
   fs_with (table_text py_str rs)"
  by (simp add: fs_with_def fs_data_def old_text_def header_if_new_def isfile_def table_text_def)

lemma row_cells_values:
  "set (row_cells py_str r) \<subseteq> insert [] (cell_text py_str ` snd ` set r)"
proof
  fix f assume "f \<in> set (row_cells py_str r)"
  then obtain key where f: "f = cell_text py_str (case map_of r key of None \<Rightarrow> JStr [] | Some v \<Rightarrow> v)"
    by (auto simp: row_cells_def dict_to_list_def)
  show "f \<in> insert [] (cell_text py_str ` snd ` set r)"
  proof (cases "map_of r key")
    case None
    with f show ?thesis by simp
  next
    case (Some v)
    then have "(key, v) \<in> set r" by (rule map_of_SomeD)
    then have "v \<in> snd ` set r" by force
    with f Some show ?thesis by simp
  qed
qed

lemma cells_example_empty:
  "\<forall>f \<in> set (row_cells no_str (normalize_record [] ts_example)). length f \<le> field_limit"
  by (simp add: row_cells_def dict_to_list_def fieldnames_def normalize_record_def dict_get_Nil
      dict_get_Cons get_nested_def field_limit_def ts_example_def no_str_def)

lemma cells_example_P1:
  "\<forall>f \<in> set (row_cells no_str (normalize_record pair_P1 ts_example)). length f \<le> field_limit"
  by (simp add: row_cells_def dict_to_list_def fieldnames_def normalize_record_def dict_get_Nil
      dict_get_Cons get_nested_def field_limit_def ts_example_def no_str_def pair_P1_def)

lemma cells_example_P3:
  "\<forall>f \<in> set (row_cells no_str (normalize_record pair_P3 ts_example)). length f \<le> field_limit"
  by (simp add: row_cells_def dict_to_list_def fieldnames_def normalize_record_def dict_get_Nil
      dict_get_Cons get_nested_def field_limit_def ts_example_def no_str_def pair_P3_def)

lemma cells_example_number:
  "\<forall>f \<in> set (row_cells no_str (normalize_record [(''pairAddress'', JInt 5)] ts_example)).
     length f \<le> field_limit"
  by (simp add: row_cells_def dict_to_list_def fieldnames_def normalize_record_def dict_get_Nil
      dict_get_Cons get_nested_def field_limit_def ts_example_def no_str_def str_int_def)

lemma cells_example_no_address:
  "\<forall>f \<in> set (row_cells no_str (normalize_record [(''chainId'', JStr ''solana'')] ts_example)).
     length f \<le> field_limit"
  by (simp add: row_cells_def dict_to_list_def fieldnames_def normalize_record_def dict_get_Nil
      dict_get_Cons get_nested_def field_limit_def ts_example_def no_str_def)

lemma write_first:
  assumes "dedup_loop {} [] rows = Inr deduped" "deduped \<noteq> []" "\<forall>r \<in> set deduped. \<not> wrong_fields r"
  shows "write_rows py_str fs_data csv_example rows =
           (fs_with (table_text py_str deduped), Inr (length deduped))"
proof -
  have "files fs_data csv_example = None" by (simp add: fs_data_def)
  then have a: "read_existing_keys fs_data csv_example = Inr {}"
    by (rule read_existing_keys_absent)
  from write_rows_effect [OF a assms(1) assms(2) open_fs_data assms(3), of py_str]
  show ?thesis by (simp only: fs_data_create)
qed

lemma write_next:
  assumes "dedup_loop (disk_key py_str ` set rs) [] rows = Inr deduped" "deduped \<noteq> []"
    "\<forall>r \<in> set deduped. \<not> wrong_fields r"
    "\<forall>r \<in> set rs. \<forall>f \<in> set (row_cells py_str r). length f \<le> field_limit"
  shows "write_rows py_str (fs_with (table_text py_str rs)) csv_example rows =
           (fs_with (table_text py_str (rs @ deduped)), Inr (length deduped))"
proof -
  have a: "read_existing_keys (fs_with (table_text py_str rs)) csv_example =
             Inr (disk_key py_str ` set rs)"
    using files_fs_with assms(4) by (rule read_existing_keys_table)
  from write_rows_effect [OF a assms(1) assms(2) open_fs_with assms(3), of py_str]
  show ?thesis by (simp only: fs_with_append table_text_append)
qed

lemma write_next_nothing:
  assumes "dedup_loop (disk_key py_str ` set rs) [] rows = Inr []"
    "\<forall>r \<in> set rs. \<forall>f \<in> set (row_cells py_str r). length f \<le> field_limit"
  shows "write_rows py_str (fs_with (table_text py_str rs)) csv_example rows =
           (fs_with (table_text py_str rs), Inr 0)"
proof -
  have a: "read_existing_keys (fs_with (table_text py_str rs)) csv_example =
             Inr (disk_key py_str ` set rs)"
    using files_fs_with assms(2) by (rule read_existing_keys_table)
  from a assms(1) show ?thesis by (rule write_rows_nothing_new)
qed

text \<open>
  C1, at an input where it fails. One raw record without a \<open>pairAddress\<close> (the empty
  mapping), normalized and appended to a path where no file exists: the first call
  writes the header and the row and returns 1. The second call with the same rows reads
  the key of that row back as the pair of strings \<^verbatim>\<open>('', ts)\<close>, compares it with the
  candidate's key \<^verbatim>\<open>(None, ts)\<close>, finds the row new, appends it again and returns 1:
  the file then holds the row twice.
\<close>

theorem second_append_writes_again:
  "write_rows no_str fs_data csv_example (normalize_records [[]] ts_example) =
     (fs_with (table_text no_str (normalize_records [[]] ts_example)), Inr 1) \<and>
   write_rows no_str (fs_with (table_text no_str (normalize_records [[]] ts_example))) csv_example
       (normalize_records [[]] ts_example) =
     (fs_with (table_text no_str
        (normalize_records [[]] ts_example @ normalize_records [[]] ts_example)), Inr 1)"
proof -
  let ?rows = "normalize_records [[]] ts_example"
  have r: "?rows = [normalize_record [] ts_example]" by (simp add: normalize_records_map)
  have 1: "dedup_loop {} [] ?rows = Inr ?rows"
    by (simp add: r row_key_normalize_record dict_get_Nil set_key_def Let_def)
  have 2: "dedup_loop (disk_key no_str ` set ?rows) [] ?rows = Inr ?rows"
    by (simp add: r row_key_normalize_record disk_key_normalize_record dict_get_Nil
        set_key_def Let_def)
  have ne: "?rows \<noteq> []" by (simp add: r)
  have ok: "\<forall>r \<in> set ?rows. \<not> wrong_fields r"
    by (simp add: r wrong_fields_normalize_record)
  have short: "\<forall>r \<in> set ?rows. \<forall>f \<in> set (row_cells no_str r). length f \<le> field_limit"
    using cells_example_empty by (simp add: r)
  from write_first [OF 1 ne ok, of no_str] write_next [OF 2 ne ok short]
  show ?thesis by (simp add: r)
qed

text \<open>
  C2, at an input where it fails. Batch A holds the keys \<open>k1 = (P1, ts)\<close> and
  \<open>k2 = (None, ts)\<close>, batch B the keys \<open>k2\<close> and \<open>k3 = (P3, ts)\<close>. Written one after
  the other to a path where no file exists, A appends two rows and B appends two rows
  again: the file ends with four data rows and the row of \<open>k2\<close> twice, although its key
  was on disk when B was written.
\<close>

theorem cross_batch_duplicate:
  "write_rows no_str fs_data csv_example (normalize_records [pair_P1, []] ts_example) =
     (fs_with (table_text no_str (normalize_records [pair_P1, []] ts_example)), Inr 2) \<and>
   write_rows no_str (fs_with (table_text no_str (normalize_records [pair_P1, []] ts_example)))
       csv_example (normalize_records [[], pair_P3] ts_example) =
     (fs_with (table_text no_str
        (normalize_records [pair_P1, []] ts_example @ normalize_records [[], pair_P3] ts_example)),
      Inr 2) \<and>
   row_key (normalize_records [pair_P1, []] ts_example ! 1) =
     row_key (normalize_records [[], pair_P3] ts_example ! 0)"
proof -
  let ?A = "normalize_records [pair_P1, []] ts_example"
  let ?B = "normalize_records [[], pair_P3] ts_example"
  have a: "?A = [normalize_record pair_P1 ts_example, normalize_record [] ts_example]"
    and b: "?B = [normalize_record [] ts_example, normalize_record pair_P3 ts_example]"
    by (simp_all add: normalize_records_map)
  have 1: "dedup_loop {} [] ?A = Inr ?A"
    by (simp add: a row_key_normalize_record dict_get_Nil pairAddress_examples
        set_key_def Let_def)
  have 2: "dedup_loop (disk_key no_str ` set ?A) [] ?B = Inr ?B"
    by (simp add: a b row_key_normalize_record disk_key_normalize_record dict_get_Nil
        pairAddress_examples set_key_def Let_def)
  have ne: "?A \<noteq> []" "?B \<noteq> []" by (simp_all add: a b)
  have ok: "\<forall>r \<in> set ?A. \<not> wrong_fields r" "\<forall>r \<in> set ?B. \<not> wrong_fields r"
    by (simp_all add: a b wrong_fields_normalize_record)
  have k: "row_key (?A ! 1) = row_key (?B ! 0)"
    by (simp add: a b row_key_normalize_record)
  have short: "\<forall>r \<in> set ?A. \<forall>f \<in> set (row_cells no_str r). length f \<le> field_limit"
    using cells_example_empty cells_example_P1 by (simp add: a)
  from write_first [OF 1 ne(1) ok(1), of no_str] write_next [OF 2 ne(2) ok(2) short] k
  show ?thesis by (simp add: a b)
qed


text \<open>
  The same happens with any \<open>pairAddress\<close> that is not a string, for instance the
  number 5, which is read back as the string \<^verbatim>\<open>'5'\<close>.
\<close>

lemma second_append_writes_again_number:
  "write_rows no_str fs_data csv_example (normalize_records [[(''pairAddress'', JInt 5)]] ts_example) =
     (fs_with (table_text no_str (normalize_records [[(''pairAddress'', JInt 5)]] ts_example)), Inr 1) \<and>
   write_rows no_str
       (fs_with (table_text no_str (normalize_records [[(''pairAddress'', JInt 5)]] ts_example)))
       csv_example (normalize_records [[(''pairAddress'', JInt 5)]] ts_example) =
     (fs_with (table_text no_str
        (normalize_records [[(''pairAddress'', JInt 5)]] ts_example @
         normalize_records [[(''pairAddress'', JInt 5)]] ts_example)), Inr 1)"
proof -
  let ?rows = "normalize_records [[(''pairAddress'', JInt 5)]] ts_example"
  have r: "?rows = [normalize_record [(''pairAddress'', JInt 5)] ts_example]"
    by (simp add: normalize_records_map)
  have 1: "dedup_loop {} [] ?rows = Inr ?rows"
    by (simp add: r row_key_normalize_record dict_get_Cons set_key_def Let_def)
  have 2: "dedup_loop (disk_key no_str ` set ?rows) [] ?rows = Inr ?rows"
    by (simp add: r row_key_normalize_record disk_key_normalize_record dict_get_Cons
        set_key_def Let_def)
  have ne: "?rows \<noteq> []" by (simp add: r)
  have ok: "\<forall>r \<in> set ?rows. \<not> wrong_fields r"
    by (simp add: r wrong_fields_normalize_record)
  have short: "\<forall>r \<in> set ?rows. \<forall>f \<in> set (row_cells no_str r). length f \<le> field_limit"
    using cells_example_number by (simp add: r)
  from write_first [OF 1 ne ok, of no_str] write_next [OF 2 ne ok short]
  show ?thesis by (simp add: r)
qed

lemma write_P1_first:
  "write_rows no_str fs_data csv_example (normalize_records [pair_P1] ts_example) =
     (fs_with (table_text no_str (normalize_records [pair_P1] ts_example)), Inr 1)"
proof -
  let ?rows = "normalize_records [pair_P1] ts_example"
  have r: "?rows = [normalize_record pair_P1 ts_example]" by (simp add: normalize_records_map)
  have 1: "dedup_loop {} [] ?rows = Inr ?rows"
    by (simp add: r row_key_normalize_record pairAddress_examples set_key_def Let_def)
  have ne: "?rows \<noteq> []" by (simp add: r)
  have ok: "\<forall>r \<in> set ?rows. \<not> wrong_fields r"
    by (simp add: r wrong_fields_normalize_record)
  from write_first [OF 1 ne ok, of no_str] show ?thesis by (simp add: r)
qed

lemma write_P1_second:
  "write_rows no_str (fs_with (table_text no_str (normalize_records [pair_P1] ts_example))) csv_example
       (normalize_records [pair_P1] ts_example) =
     (fs_with (table_text no_str (normalize_records [pair_P1] ts_example)), Inr 0)"
proof -
  let ?rows = "normalize_records [pair_P1] ts_example"
  have r: "?rows = [normalize_record pair_P1 ts_example]" by (simp add: normalize_records_map)
  have "dedup_loop (disk_key no_str ` set ?rows) [] ?rows = Inr []"
    by (simp add: r row_key_normalize_record disk_key_normalize_record pairAddress_examples
        set_key_def Let_def)
  moreover have "\<forall>r \<in> set ?rows. \<forall>f \<in> set (row_cells no_str r). length f \<le> field_limit"
    using cells_example_P1 by (simp add: r)
  ultimately show ?thesis by (rule write_next_nothing)
qed

theorem header_once_append_only_witness:
  "files fs_data csv_example = None \<and>
   files (append_all no_str fs_data csv_example
            [normalize_records [pair_P1] ts_example, normalize_records [pair_P1] ts_example])
      csv_example = Some (table_text no_str (normalize_records [pair_P1] ts_example)) \<and>
   (\<exists>rs. set rs \<subseteq> set (concat [normalize_records [pair_P1] ts_example,
                                   normalize_records [pair_P1] ts_example]) \<and>
      table_text no_str (normalize_records [pair_P1] ts_example) =
        csv_writerow fieldnames @ concat (map (row_line no_str) rs) \<and>
      csv_reader (table_text no_str (normalize_records [pair_P1] ts_example)) =
        fieldnames # map (row_cells no_str) rs) \<and>
   row_cells no_str (normalize_record pair_P1 ts_example) \<noteq> fieldnames \<and>
   count_list (csv_reader (table_text no_str (normalize_records [pair_P1] ts_example))) fieldnames = 1 \<and>
   files (fs_with (csv_writerow fieldnames)) csv_example = Some (csv_writerow fieldnames) \<and>
   (\<exists>new. files (fst (write_rows no_str (fs_with (csv_writerow fieldnames)) csv_example
                         (normalize_records [pair_P1] ts_example))) csv_example =
            Some (csv_writerow fieldnames @ new)) \<and>
   (\<exists>new. files (append_all no_str (fs_with (csv_writerow fieldnames)) csv_example
                    [normalize_records [pair_P1] ts_example]) csv_example =
            Some (csv_writerow fieldnames @ new))"
proof -
  let ?rows = "normalize_records [pair_P1] ts_example"
  have n: "files fs_data csv_example = None" by (simp add: fs_data_def)
  have f: "files (fs_with (csv_writerow fieldnames)) csv_example = Some (csv_writerow fieldnames)"
    by (rule files_fs_with)
  have a: "files (append_all no_str fs_data csv_example [?rows, ?rows]) csv_example =
             Some (table_text no_str ?rows)"
    by (simp add: write_P1_first write_P1_second files_fs_with)
  from header_once_append_only [where s = fs_data and csv_path = csv_example and py_str = no_str
      and batches = "[?rows, ?rows]"] n a
  have 1: "\<exists>rs. set rs \<subseteq> set (concat [?rows, ?rows]) \<and>
      table_text no_str ?rows = csv_writerow fieldnames @ concat (map (row_line no_str) rs) \<and>
      csv_reader (table_text no_str ?rows) = fieldnames # map (row_cells no_str) rs \<and>
      ((\<forall>r \<in> set (concat [?rows, ?rows]). row_cells no_str r \<noteq> fieldnames) \<longrightarrow>
         count_list (csv_reader (table_text no_str ?rows)) fieldnames = 1)"
    by simp
  have "row_cells no_str (normalize_record pair_P1 ts_example) ! 0 \<noteq> fieldnames ! 0"
    by (simp add: row_cells_key normalize_record_ts fieldnames_nth ts_example_def)
  then have d: "row_cells no_str (normalize_record pair_P1 ts_example) \<noteq> fieldnames"
    by metis
  then have "\<forall>r \<in> set (concat [?rows, ?rows]). row_cells no_str r \<noteq> fieldnames"
    by (simp add: normalize_records_map)
  with 1 have c: "count_list (csv_reader (table_text no_str ?rows)) fieldnames = 1"
    by blast
  from header_once_append_only [where s = "fs_with (csv_writerow fieldnames)" and csv_path = csv_example
      and py_str = no_str and batches = "[?rows]" and rows = ?rows] f
  have 2: "\<exists>new. files (fst (write_rows no_str (fs_with (csv_writerow fieldnames)) csv_example ?rows))
              csv_example = Some (csv_writerow fieldnames @ new)"
    and 3: "\<exists>new. files (append_all no_str (fs_with (csv_writerow fieldnames)) csv_example [?rows])
              csv_example = Some (csv_writerow fieldnames @ new)"
    by blast+
  from 1 have "\<exists>rs. set rs \<subseteq> set (concat [?rows, ?rows]) \<and>
      table_text no_str ?rows = csv_writerow fieldnames @ concat (map (row_line no_str) rs) \<and>
      csv_reader (table_text no_str ?rows) = fieldnames # map (row_cells no_str) rs"
    by blast
  with n a d c f 2 3 show ?thesis by blast
qed

lemma dedup_loop_Cons:
  "dedup_loop existing acc (r # rows) =
     (if \<not> (hashable (fst (row_key r)) \<and> hashable (snd (row_key r))) then Inl TypeError
      else if set_key (row_key r) \<notin> existing
      then dedup_loop (insert (set_key (row_key r)) existing) (acc @ [r]) rows
      else dedup_loop existing acc rows)"
  by (simp add: Let_def)

lemma dedup_loop_all_present:
  "\<forall>r \<in> set rows. hashable (fst (row_key r)) \<and> hashable (snd (row_key r)) \<and>
      set_key (row_key r) \<in> existing \<Longrightarrow>
   dedup_loop existing acc rows = Inr acc"
proof (induction rows)
  case Nil
  show ?case by simp
next
  case (Cons r rows)
  then have "dedup_loop existing acc rows = Inr acc" by simp
  with Cons.prems show ?case by (simp only: dedup_loop_Cons) simp
qed

lemma dedup_loop_hashable:
  "dedup_loop existing acc rows = Inr deduped \<Longrightarrow>
   \<forall>r \<in> set rows. hashable (fst (row_key r)) \<and> hashable (snd (row_key r))"
proof (induction rows arbitrary: existing acc)
  case Nil
  show ?case by simp
next
  case (Cons r rows)
  from Cons.prems have h: "hashable (fst (row_key r)) \<and> hashable (snd (row_key r))"
    by (simp only: dedup_loop_Cons split: if_splits) simp
  show ?case
  proof (cases "set_key (row_key r) \<in> existing")
    case True
    with Cons.prems h have "dedup_loop existing acc rows = Inr deduped"
      by (simp only: dedup_loop_Cons) simp
    from Cons.IH [OF this] h show ?thesis by simp
  next
    case False
    with Cons.prems h
    have "dedup_loop (insert (set_key (row_key r)) existing) (acc @ [r]) rows = Inr deduped"
      by (simp only: dedup_loop_Cons) simp
    from Cons.IH [OF this] h show ?thesis by simp
  qed
qed

lemma dedup_loop_complete:
  "dedup_loop existing acc rows = Inr deduped \<Longrightarrow>
   \<forall>r \<in> set rows. set_key (row_key r) \<in> existing \<union> (\<lambda>r. set_key (row_key r)) ` set deduped"
proof (induction rows arbitrary: existing acc)
  case Nil
  show ?case by simp
next
  case (Cons r rows)
  let ?k = "set_key (row_key r)"
  from Cons.prems have h: "hashable (fst (row_key r)) \<and> hashable (snd (row_key r))"
    by (simp only: dedup_loop_Cons split: if_splits) simp
  show ?case
  proof (cases "?k \<in> existing")
    case True
    with Cons.prems h have "dedup_loop existing acc rows = Inr deduped"
      by (simp only: dedup_loop_Cons) simp
    from Cons.IH [OF this] True show ?thesis by simp
  next
    case False
    with Cons.prems h have l: "dedup_loop (insert ?k existing) (acc @ [r]) rows = Inr deduped"
      by (simp only: dedup_loop_Cons) simp
    from dedup_loop_result [OF l] have "r \<in> set deduped" by auto
    then have "?k \<in> (\<lambda>r. set_key (row_key r)) ` set deduped" by (rule imageI)
    with Cons.IH [OF l] show ?thesis by auto
  qed
qed

text \<open>
  What does hold of a repeated append: when every candidate row has strings for
  \<open>pairAddress\<close> and \<open>snapshot_ts\<close>, and no cell longer than the reader's field size
  limit, a second call with the same rows on the file the first call created writes
  nothing.
\<close>

lemma write_rows_twice_string_keys:
  assumes w: "write_rows py_str s csv_path rows = (s1, Inr n)"
    and absent: "files s csv_path = None"
    and str: "\<forall>r \<in> set rows. \<exists>a t. row_key r = (JStr a, JStr t)"
    and short: "\<forall>r \<in> set rows. \<forall>f \<in> set (row_cells py_str r). length f \<le> field_limit"
  shows "write_rows py_str s1 csv_path rows = (s1, Inr 0)"
proof -
  have ex: "read_existing_keys s csv_path = Inr {}"
    using absent by (rule read_existing_keys_absent)
  from write_rows_result [OF w]
  obtain deduped where d0:
    "rows = [] \<or> (\<exists>existing. read_existing_keys s csv_path = Inr existing \<and>
        dedup_loop existing [] rows = Inr deduped \<and>
        (\<forall>r \<in> set deduped. set_key (row_key r) \<notin> existing))"
    "rows = [] \<longrightarrow> deduped = []"
    "subseq deduped rows"
    "if deduped = [] then s1 = s
     else s1 = s\<lparr>files := (files s)(csv_path \<mapsto>
            old_text s csv_path @ header_if_new s csv_path @
            concat (map (row_line py_str) deduped))\<rparr>"
    by blast
  show ?thesis
  proof (cases "rows = []")
    case True
    then show ?thesis by (simp add: write_rows_def)
  next
    case ne: False
    with d0(1) ex have d: "dedup_loop {} [] rows = Inr deduped" by auto
    have same: "\<And>r. r \<in> set rows \<Longrightarrow> disk_key py_str r = set_key (row_key r)"
    proof -
      fix r assume "r \<in> set rows"
      with str obtain a t where "row_key r = (JStr a, JStr t)" by blast
      then show "disk_key py_str r = set_key (row_key r)"
        by (simp add: disk_key_def row_key_def set_key_def)
    qed
    from dedup_loop_complete [OF d]
    have all: "\<forall>r \<in> set rows. set_key (row_key r) \<in> (\<lambda>r. set_key (row_key r)) ` set deduped"
      by simp
    with ne have False: "deduped \<noteq> []" by (cases rows) auto
    from subseq_set [OF d0(3)] short
    have short': "\<forall>r \<in> set deduped. \<forall>f \<in> set (row_cells py_str r). length f \<le> field_limit"
      by blast
    from False d0(4) absent have "files s1 csv_path = Some (table_text py_str deduped)"
      by (simp add: old_text_def header_if_new_def isfile_def table_text_def)
    then have "read_existing_keys s1 csv_path = Inr (disk_key py_str ` set deduped)"
      using short' by (rule read_existing_keys_table)
    moreover have "disk_key py_str ` set deduped = (\<lambda>r. set_key (row_key r)) ` set deduped"
      using subseq_set [OF d0(3)] same by (intro image_cong) auto
    ultimately have r1: "read_existing_keys s1 csv_path =
        Inr ((\<lambda>r. set_key (row_key r)) ` set deduped)"
      by simp
    from all dedup_loop_hashable [OF d]
    have "dedup_loop ((\<lambda>r. set_key (row_key r)) ` set deduped) [] rows = Inr []"
      by (intro dedup_loop_all_present) simp
    with r1 show ?thesis by (rule write_rows_nothing_new)
  qed
qed

subsection \<open>The keys read back and the keys of the rows\<close>

text \<open>
  When the rows of the file have strings for \<open>pairAddress\<close> and \<open>snapshot_ts\<close>, the keys
  read back are the keys of the rows.
\<close>

lemma read_existing_keys_string_keys:
  assumes "files s csv_path = Some (table_text py_str rs)"
    and "\<forall>r \<in> set rs. \<forall>f \<in> set (row_cells py_str r). length f \<le> field_limit"
    and "\<forall>r \<in> set rs. \<exists>a t. row_key r = (JStr a, JStr t)"
  shows "read_existing_keys s csv_path = Inr (row_key ` set rs)"
proof -
  have "disk_key py_str ` set rs = row_key ` set rs"
  proof (rule image_cong [OF refl])
    fix r assume "r \<in> set rs"
    with assms(3) obtain a t where "row_key r = (JStr a, JStr t)" by blast
    then show "disk_key py_str r = row_key r"
      by (simp add: disk_key_def row_key_def)
  qed
  with read_existing_keys_table [OF assms(1,2)] show ?thesis by simp
qed

text \<open>
  C7, at an input where it fails. The file is the one \<open>write_rows\<close> creates from one raw
  record without a \<open>pairAddress\<close> (the empty mapping): a header and one row. The Dedup
  Key of that row is \<^verbatim>\<open>(None, ts)\<close>. \<open>read_existing_keys\<close> returns the set with the one
  pair of strings \<^verbatim>\<open>('', ts)\<close>, and so does \<open>read_existing_rows_indexed\<close>: the key of the
  row present is not in the set returned.
\<close>

theorem read_existing_keys_misses_row_key:
  "write_rows no_str fs_data csv_example (normalize_records [[]] ts_example) =
     (fs_with (table_text no_str (normalize_records [[]] ts_example)), Inr 1) \<and>
   map row_key (normalize_records [[]] ts_example) = [(JNull, JStr ts_example)] \<and>
   read_existing_keys (fs_with (table_text no_str (normalize_records [[]] ts_example))) csv_example =
     Inr {(JStr [], JStr ts_example)} \<and>
   read_existing_rows_indexed (fs_with (table_text no_str (normalize_records [[]] ts_example)))
       csv_example =
     Inr {(JStr [], JStr ts_example)} \<and>
   set_key (JNull, JStr ts_example) \<notin> {(JStr [], JStr ts_example)}"
proof -
  let ?rows = "normalize_records [[]] ts_example"
  have r: "?rows = [normalize_record [] ts_example]" by (simp add: normalize_records_map)
  have 1: "dedup_loop {} [] ?rows = Inr ?rows"
    by (simp add: r row_key_normalize_record dict_get_Nil set_key_def Let_def)
  have ne: "?rows \<noteq> []" by (simp add: r)
  have ok: "\<forall>r \<in> set ?rows. \<not> wrong_fields r"
    by (simp add: r wrong_fields_normalize_record)
  have short: "\<forall>r \<in> set ?rows. \<forall>f \<in> set (row_cells no_str r). length f \<le> field_limit"
    using cells_example_empty by (simp add: r)
  have w: "write_rows no_str fs_data csv_example ?rows = (fs_with (table_text no_str ?rows), Inr 1)"
    using write_first [OF 1 ne ok, of no_str] by (simp add: r)
  have k: "map row_key ?rows = [(JNull, JStr ts_example)]"
    by (simp add: r row_key_normalize_record dict_get_Nil)
  have "read_existing_keys (fs_with (table_text no_str ?rows)) csv_example =
      Inr (disk_key no_str ` set ?rows)"
    using files_fs_with short by (rule read_existing_keys_table)
  then have e: "read_existing_keys (fs_with (table_text no_str ?rows)) csv_example =
      Inr {(JStr [], JStr ts_example)}"
    by (simp add: r disk_key_normalize_record dict_get_Nil)
  have i: "read_existing_rows_indexed (fs_with (table_text no_str ?rows)) csv_example =
      Inr {(JStr [], JStr ts_example)}"
    using e by (simp only: read_existing_rows_indexed_eq)
  have n: "set_key (JNull, JStr ts_example) \<notin> {(JStr [], JStr ts_example)}"
    by (simp add: set_key_def)
  from w k e i n show ?thesis by (simp only: simp_thms)
qed

end
